theory Spec2Isabelle
  imports Complex_Main "HOL-Library.Log_Nat"
begin

section \<open>Errors and samples\<close>

text \<open>
  The exceptions the two source files can raise or pass on. \<open>NotInitialized\<close> is the
  \<^verbatim>\<open>new Error("Transcriber not initialized. Call initialize() first.")\<close> of the two
  transcribe methods; \<open>LoadFailure\<close> is whatever the rejected \<^verbatim>\<open>pipeline(...)\<close> promise
  carries; \<open>FetchFailure\<close> and \<open>DecodeFailure\<close> come from \<^verbatim>\<open>fetch\<close> and
  \<^verbatim>\<open>decodeAudioData\<close>; \<open>IndexSizeError\<close> from \<^verbatim>\<open>getChannelData\<close>; \<open>RangeError\<close> from
  \<^verbatim>\<open>new Float32Array(n)\<close> with a negative \<open>n\<close>; \<open>InferenceFailure\<close> from the call of the
  pipeline object.
\<close>

datatype error =
    NotInitialized
  | LoadFailure string
  | FetchFailure string
  | DecodeFailure string
  | InferenceFailure string
  | IndexSizeError
  | RangeError

text \<open>
  An element of a \<^verbatim>\<open>Float32Array\<close>: a finite value, or \<open>NaN\<close>. Reading a typed array
  outside its bounds gives \<^verbatim>\<open>undefined\<close>, which arithmetic and the store into a
  \<^verbatim>\<open>Float32Array\<close> both turn into \<open>NaN\<close>.
\<close>

datatype sample = Val rat | NaN

type_synonym bytes = "nat list"

section \<open>JavaScript numbers\<close>

text \<open>
  A JavaScript \<^verbatim>\<open>number\<close> is an IEEE 754 binary64 value. The finite ones are rationals,
  and each arithmetic operator returns the exact result rounded to the nearest
  representable value, ties to the even significand. \<open>round_to p emin\<close> is that rounding
  for a format with \<open>p\<close> significand bits and least normal exponent \<open>emin\<close>, with gradual
  underflow below \<open>2 powi emin\<close>: binary64 is \<open>p = 53\<close>, \<open>emin = -1022\<close>, and binary32 (the
  element type of a \<^verbatim>\<open>Float32Array\<close>) is \<open>p = 24\<close>, \<open>emin = -126\<close>. Overflow to an
  infinity is not part of the model, and the two zeros are one value.
\<close>

definition rne :: "rat \<Rightarrow> int" where
  \<comment> \<open>the nearest integer, a tie going to the even one\<close>
  "rne x = (let n = \<lfloor>x\<rfloor>; d = x - of_int n in
            if d < 1 / 2 then n else if 1 / 2 < d then n + 1
            else if even n then n else n + 1)"

definition ilog2 :: "rat \<Rightarrow> int" where
  \<comment> \<open>for \<open>0 < x\<close>, the exponent \<open>e\<close> with \<open>2 powi e \<le> x < 2 powi (e + 1)\<close>\<close>
  "ilog2 x = (if 1 \<le> x then bitlen \<lfloor>x\<rfloor> - 1 else - bitlen (\<lceil>1 / x\<rceil> - 1))"

definition round_to :: "nat \<Rightarrow> int \<Rightarrow> rat \<Rightarrow> rat" where
  "round_to p emin x =
     (if x = 0 then 0
      else let e = max (ilog2 \<bar>x\<bar>) emin; ulp = 2 powi (e - int p + 1)
           in of_int (rne (x / ulp)) * ulp)"

text \<open>
  The spacing of the representable values around \<open>x\<close>: \<open>round_to p emin x\<close> is the
  multiple of \<open>ulp_of p emin x\<close> nearest to \<open>x\<close>.
\<close>

definition ulp_of :: "nat \<Rightarrow> int \<Rightarrow> rat \<Rightarrow> rat" where
  "ulp_of p emin x = 2 powi (max (ilog2 \<bar>x\<bar>) emin - int p + 1)"

definition f64 :: "rat \<Rightarrow> rat" where
  "f64 = round_to 53 (- 1022)"

definition f32 :: "rat \<Rightarrow> rat" where
  "f32 = round_to 24 (- 126)"

definition fdiv :: "rat \<Rightarrow> rat \<Rightarrow> rat" where
  \<comment> \<open>\<^verbatim>\<open>a / b\<close> for \<open>b \<noteq> 0\<close>; the callers treat a zero divisor before they divide\<close>
  "fdiv a b = f64 (a / b)"

definition fmul :: "rat \<Rightarrow> rat \<Rightarrow> rat" where
  "fmul a b = f64 (a * b)"

definition fadd :: "rat \<Rightarrow> rat \<Rightarrow> rat" where
  "fadd a b = f64 (a + b)"

definition fsub :: "rat \<Rightarrow> rat \<Rightarrow> rat" where
  "fsub a b = f64 (a - b)"

definition js_round :: "rat \<Rightarrow> int" where
  \<comment> \<open>\<^verbatim>\<open>Math.round\<close>: the nearest integer, a tie going up\<close>
  "js_round x = \<lfloor>x + 1 / 2\<rfloor>"

section \<open>Typed arrays\<close>

definition rd :: "sample list \<Rightarrow> int \<Rightarrow> sample" where
  \<comment> \<open>\<^verbatim>\<open>a[k]\<close> for an integral \<open>k\<close>: out of range it is \<^verbatim>\<open>undefined\<close>, here \<open>NaN\<close>\<close>
  "rd a k = (if 0 \<le> k \<and> k < int (length a) then a ! nat k else NaN)"

fun smul :: "sample \<Rightarrow> rat \<Rightarrow> sample" where
  "smul (Val a) g = Val (fmul a g)"
| "smul NaN g = NaN"

fun sadd :: "sample \<Rightarrow> sample \<Rightarrow> sample" where
  "sadd (Val a) (Val b) = Val (fadd a b)"
| "sadd NaN b = NaN"
| "sadd a NaN = NaN"

fun store :: "sample \<Rightarrow> sample" where
  \<comment> \<open>the conversion to binary32 of an assignment \<^verbatim>\<open>result[i] = v\<close>\<close>
  "store (Val v) = Val (f32 v)"
| "store NaN = NaN"

fun is_f32 :: "sample \<Rightarrow> bool" where
  \<comment> \<open>a finite binary32 value, as every element of a decoded \<^verbatim>\<open>Float32Array\<close> is\<close>
  "is_f32 (Val v) = (f32 v = v)"
| "is_f32 NaN = False"

fun value_of :: "sample \<Rightarrow> rat" where
  "value_of (Val v) = v"
| "value_of NaN = 0"

section \<open>The resampler (\<^verbatim>\<open>src/utils.ts\<close>)\<close>

text \<open>
  The body of the \<^verbatim>\<open>for\<close> loop of \<^verbatim>\<open>resampleAudio\<close>: the value assigned to
  \<^verbatim>\<open>result[i]\<close>. \<open>index\<close> is integral, and \<^verbatim>\<open>index + 1\<close> is exact below \<open>2 ^ 53\<close>; at or
  above \<open>2 ^ 53\<close> both the exact and the rounded sum exceed the length of any typed array,
  so the comparison is written on integers.
\<close>

definition resample_at :: "sample list \<Rightarrow> rat \<Rightarrow> nat \<Rightarrow> sample" where
  "resample_at audioData ratio i =
     (let position = fmul (of_nat i) ratio;
          index = \<lfloor>position\<rfloor>;
          fraction = fsub position (of_int index)
      in if index + 1 < int (length audioData)
         then store (sadd (smul (rd audioData index) (fsub 1 fraction))
                          (smul (rd audioData (index + 1)) fraction))
         else store (rd audioData index))"

function resample_loop :: "sample list \<Rightarrow> rat \<Rightarrow> nat \<Rightarrow> nat \<Rightarrow> sample list \<Rightarrow> sample list" where
  "resample_loop audioData ratio newLength i result =
     (if i < newLength
      then resample_loop audioData ratio newLength (Suc i)
             (result[i := resample_at audioData ratio i])
      else result)"
  by pat_completeness auto
termination
  by (relation "measure (\<lambda>(audioData, ratio, newLength, i, result). newLength - i)") auto

declare resample_loop.simps [simp del]

text \<open>
  \<^verbatim>\<open>resampleAudio\<close>. The branches on a zero divisor spell out what the quotients are in
  JavaScript: with \<open>outputRate = 0\<close> the ratio is an infinity and \<^verbatim>\<open>length / ratio\<close> a zero;
  with \<open>ratio = 0\<close> the quotient \<^verbatim>\<open>length / ratio\<close> is \<open>NaN\<close> for an empty input (an array
  of length \<open>0\<close>) and an infinity otherwise, which \<^verbatim>\<open>new Float32Array\<close> refuses, as it
  refuses a negative length or one of \<open>2 ^ 53\<close> or more.
\<close>

definition resampleAudio :: "sample list \<Rightarrow> rat \<Rightarrow> rat \<Rightarrow> error + sample list" where
  "resampleAudio audioData inputRate outputRate =
     (if inputRate = outputRate then Inr audioData
      else if outputRate = 0 then Inr []
      else let ratio = fdiv inputRate outputRate in
        if ratio = 0 then (if audioData = [] then Inr [] else Inl RangeError)
        else let newLength = js_round (fdiv (of_nat (length audioData)) ratio) in
          if newLength < 0 \<or> 2 ^ 53 \<le> newLength then Inl RangeError
          else Inr (resample_loop audioData ratio (nat newLength) 0
                      (replicate (nat newLength) (Val 0))))"

section \<open>The audio loaders (\<^verbatim>\<open>src/utils.ts\<close>)\<close>

text \<open>
  What \<^verbatim>\<open>decodeAudioData\<close> returns: the channels and the native sample rate.
  \<^verbatim>\<open>fetch\<close> with \<^verbatim>\<open>arrayBuffer()\<close>, and \<^verbatim>\<open>decodeAudioData\<close>, belong to the platform and are
  parameters of the loaders; a \<^verbatim>\<open>Blob\<close> is the bytes it holds.
\<close>

record audio_buffer =
  channels :: "sample list list"
  sampleRate :: rat

definition getChannelData :: "audio_buffer \<Rightarrow> nat \<Rightarrow> error + sample list" where
  "getChannelData b k =
     (if k < length (channels b) then Inr (channels b ! k) else Inl IndexSizeError)"

definition read_audio ::
  "(string \<Rightarrow> error + bytes) \<Rightarrow> (bytes \<Rightarrow> error + audio_buffer) \<Rightarrow> string \<Rightarrow> rat
     \<Rightarrow> error + sample list" where
  "read_audio fetch decodeAudioData url sampling_rate =
     (case fetch url of
        Inl e \<Rightarrow> Inl e
      | Inr arrayBuffer \<Rightarrow>
          (case decodeAudioData arrayBuffer of
             Inl e \<Rightarrow> Inl e
           | Inr audioBuffer \<Rightarrow>
               (case getChannelData audioBuffer 0 of
                  Inl e \<Rightarrow> Inl e
                | Inr channelData \<Rightarrow>
                    if sampleRate audioBuffer \<noteq> sampling_rate
                    then resampleAudio channelData (sampleRate audioBuffer) sampling_rate
                    else Inr channelData)))"

definition read_audio_from_blob ::
  "(bytes \<Rightarrow> error + audio_buffer) \<Rightarrow> bytes \<Rightarrow> rat \<Rightarrow> error + sample list" where
  "read_audio_from_blob decodeAudioData blob sampling_rate =
     (case decodeAudioData blob of
        Inl e \<Rightarrow> Inl e
      | Inr audioBuffer \<Rightarrow>
          (case getChannelData audioBuffer 0 of
             Inl e \<Rightarrow> Inl e
           | Inr channelData \<Rightarrow>
               if sampleRate audioBuffer \<noteq> sampling_rate
               then resampleAudio channelData (sampleRate audioBuffer) sampling_rate
               else Inr channelData))"

section \<open>The transcription service: state\<close>

text \<open>
  The three private fields of \<^verbatim>\<open>class WhisperTranscriber\<close>. The pipeline object is a
  type parameter; promises are named by their index in the world's promise table.
\<close>

type_synonym pid = nat

record 'h service =
  transcriber :: "'h option"
  isLoading :: bool
  loadingPromise :: "pid option"

definition new_service :: "'h service" where
  "new_service = \<lparr>transcriber = None, isLoading = False, loadingPromise = None\<rparr>"

definition isReady :: "'h service \<Rightarrow> bool" where
  "isReady s = (transcriber s \<noteq> None)"

definition dispose :: "'h service \<Rightarrow> 'h service" where
  "dispose s = (if transcriber s \<noteq> None then s\<lparr>transcriber := None\<rparr> else s)"

section \<open>The transcription service: transcribing\<close>

text \<open>
  The loaded pipeline object: the sampling rate of its feature extractor and the call
  that runs the model. The two transcribe methods return, with their result, the trace of
  the external work they started.
\<close>

record asr_pipeline =
  sampling_rate :: rat
  infer :: "sample list \<Rightarrow> error + string"

datatype effect = ReadAudio | RunInference

definition transcribeFromUrl ::
  "(string \<Rightarrow> error + bytes) \<Rightarrow> (bytes \<Rightarrow> error + audio_buffer) \<Rightarrow> string
     \<Rightarrow> asr_pipeline service \<Rightarrow> effect list \<times> (error + string)" where
  "transcribeFromUrl fetch decodeAudioData audioUrl s =
     (case transcriber s of
        None \<Rightarrow> ([], Inl NotInitialized)
      | Some t \<Rightarrow>
          (case read_audio fetch decodeAudioData audioUrl (sampling_rate t) of
             Inl e \<Rightarrow> ([ReadAudio], Inl e)
           | Inr audio \<Rightarrow>
               (case infer t audio of
                  Inl e \<Rightarrow> ([ReadAudio, RunInference], Inl e)
                | Inr text \<Rightarrow> ([ReadAudio, RunInference], Inr text))))"

definition transcribeFromBlob ::
  "(bytes \<Rightarrow> error + audio_buffer) \<Rightarrow> bytes \<Rightarrow> asr_pipeline service
     \<Rightarrow> effect list \<times> (error + string)" where
  "transcribeFromBlob decodeAudioData audioBlob s =
     (case transcriber s of
        None \<Rightarrow> ([], Inl NotInitialized)
      | Some t \<Rightarrow>
          (case read_audio_from_blob decodeAudioData audioBlob (sampling_rate t) of
             Inl e \<Rightarrow> ([ReadAudio], Inl e)
           | Inr audio \<Rightarrow>
               (case infer t audio of
                  Inl e \<Rightarrow> ([ReadAudio, RunInference], Inl e)
                | Inr text \<Rightarrow> ([ReadAudio, RunInference], Inr text))))"

section \<open>The transcription service: loading\<close>

text \<open>
  \<^verbatim>\<open>initialize\<close> and \<^verbatim>\<open>_loadModel\<close> are \<^verbatim>\<open>async\<close>: each runs without interruption up to
  an \<^verbatim>\<open>await\<close> and is resumed, again without interruption, once the awaited promise has
  settled. The world holds the service, the table of the promises that \<^verbatim>\<open>_loadModel\<close>
  returned, the calls of \<^verbatim>\<open>pipeline(...)\<close> made so far (promise and model name), the calls
  of \<^verbatim>\<open>initialize\<close> suspended at an \<^verbatim>\<open>await\<close>, and the calls that have completed, each with
  its outcome and the \<^verbatim>\<open>transcriber\<close> field at that moment.
\<close>

datatype pstate = Pending | Fulfilled | Rejected error

datatype await_site =
    AwaitExisting  \<comment> \<open>\<^verbatim>\<open>await this.loadingPromise\<close> of the \<^verbatim>\<open>isLoading\<close> branch\<close>
  | AwaitOwn       \<comment> \<open>\<^verbatim>\<open>await this.loadingPromise\<close> after \<^verbatim>\<open>_loadModel\<close> was called\<close>

type_synonym call = nat

record 'h world =
  svc :: "'h service"
  promises :: "pstate list"
  loads :: "(pid \<times> string) list"
  suspended :: "(call \<times> await_site \<times> pid option) list"
  completed :: "(call \<times> (error + unit) \<times> 'h option) list"

definition new_world :: "'h world" where
  "new_world = \<lparr>svc = new_service, promises = [], loads = [], suspended = [], completed = []\<rparr>"

definition complete :: "call \<Rightarrow> error + unit \<Rightarrow> 'h world \<Rightarrow> 'h world" where
  "complete c r w = w\<lparr>completed := completed w @ [(c, r, transcriber (svc w))]\<rparr>"

definition loadModel :: "string \<Rightarrow> 'h world \<Rightarrow> pid \<times> 'h world" where
  \<comment> \<open>\<^verbatim>\<open>_loadModel\<close> up to its \<^verbatim>\<open>await pipeline(...)\<close>: the load is started and the promise
      of the \<^verbatim>\<open>async\<close> method returned\<close>
  "loadModel modelName w =
     (let p = length (promises w)
      in (p, w\<lparr>promises := promises w @ [Pending], loads := loads w @ [(p, modelName)]\<rparr>))"

definition loadModel_settled :: "pid \<Rightarrow> error + 'h \<Rightarrow> 'h world \<Rightarrow> 'h world" where
  \<comment> \<open>\<^verbatim>\<open>_loadModel\<close> from its \<^verbatim>\<open>await\<close> on: the pipeline is stored, or the rejection passed on\<close>
  "loadModel_settled p r w =
     (case r of
        Inr h \<Rightarrow> w\<lparr>svc := (svc w)\<lparr>transcriber := Some h\<rparr>,
                   promises := (promises w)[p := Fulfilled]\<rparr>
      | Inl e \<Rightarrow> w\<lparr>promises := (promises w)[p := Rejected e]\<rparr>)"

definition initialize :: "call \<Rightarrow> string \<Rightarrow> 'h world \<Rightarrow> 'h world" where
  \<comment> \<open>\<^verbatim>\<open>initialize\<close> up to its first \<^verbatim>\<open>await\<close>, or to its \<^verbatim>\<open>return\<close>\<close>
  "initialize c modelName w =
     (if transcriber (svc w) \<noteq> None then complete c (Inr ()) w
      else if isLoading (svc w)
      then w\<lparr>suspended := suspended w @ [(c, AwaitExisting, loadingPromise (svc w))]\<rparr>
      else let w1 = w\<lparr>svc := (svc w)\<lparr>isLoading := True\<rparr>\<rparr>;
               (p, w2) = loadModel modelName w1;
               w3 = w2\<lparr>svc := (svc w2)\<lparr>loadingPromise := Some p\<rparr>\<rparr>
           in w3\<lparr>suspended := suspended w3 @ [(c, AwaitOwn, Some p)]\<rparr>)"

definition awaited :: "pstate list \<Rightarrow> pid option \<Rightarrow> pstate" where
  \<comment> \<open>the state of what an \<^verbatim>\<open>await\<close> waits for; \<^verbatim>\<open>await null\<close> goes on at once\<close>
  "awaited ps po =
     (case po of None \<Rightarrow> Fulfilled | Some p \<Rightarrow> if p < length ps then ps ! p else Pending)"

definition initialize_resumed :: "call \<Rightarrow> 'h world \<Rightarrow> 'h world option" where
  \<comment> \<open>\<^verbatim>\<open>initialize\<close> from its \<^verbatim>\<open>await\<close> on; \<open>None\<close> when the call is not waiting or the promise
      is still pending\<close>
  "initialize_resumed c w =
     (case find (\<lambda>(c', _). c' = c) (suspended w) of
        None \<Rightarrow> None
      | Some (_, site, po) \<Rightarrow>
          (let w1 = w\<lparr>suspended := filter (\<lambda>(c', _). c' \<noteq> c) (suspended w)\<rparr>
           in case awaited (promises w) po of
                Pending \<Rightarrow> None
              | Rejected e \<Rightarrow> Some (complete c (Inl e) w1)
              | Fulfilled \<Rightarrow>
                  (case site of
                     AwaitExisting \<Rightarrow> Some (complete c (Inr ()) w1)
                   | AwaitOwn \<Rightarrow>
                       Some (complete c (Inr ()) (w1\<lparr>svc := (svc w1)\<lparr>isLoading := False\<rparr>\<rparr>)))))"

datatype 'h event =
    Initialize call string   \<comment> \<open>a call of \<^verbatim>\<open>initialize(modelName)\<close>\<close>
  | Settle pid "error + 'h"  \<comment> \<open>the \<^verbatim>\<open>pipeline(...)\<close> of a load resolves or rejects\<close>
  | Resume call              \<comment> \<open>a suspended \<^verbatim>\<open>initialize\<close> goes on\<close>
  | Dispose                  \<comment> \<open>a call of \<^verbatim>\<open>dispose()\<close>\<close>

definition step :: "'h event \<Rightarrow> 'h world \<Rightarrow> 'h world option" where
  "step ev w =
     (case ev of
        Initialize c modelName \<Rightarrow> Some (initialize c modelName w)
      | Settle p r \<Rightarrow>
          if p < length (promises w) \<and> promises w ! p = Pending
          then Some (loadModel_settled p r w) else None
      | Resume c \<Rightarrow> initialize_resumed c w
      | Dispose \<Rightarrow> Some (w\<lparr>svc := dispose (svc w)\<rparr>))"

fun run :: "'h world \<Rightarrow> 'h event list \<Rightarrow> 'h world option" where
  "run w [] = Some w"
| "run w (ev # evs) = (case step ev w of None \<Rightarrow> None | Some w' \<Rightarrow> run w' evs)"

section \<open>Runs around one load\<close>

text \<open>
  The calls of \<^verbatim>\<open>initialize\<close> of a run, in the order they are made, each with its model
  name.
\<close>

fun calls_of :: "'h event list \<Rightarrow> (call \<times> string) list" where
  "calls_of [] = []"
| "calls_of (Initialize c modelName # evs) = (c, modelName) # calls_of evs"
| "calls_of (Settle p r # evs) = calls_of evs"
| "calls_of (Resume c # evs) = calls_of evs"
| "calls_of (Dispose # evs) = calls_of evs"

text \<open>
  The events of a run around the load \<open>p\<close> whose \<^verbatim>\<open>pipeline(...)\<close> settles with \<open>res\<close>: any
  call of \<^verbatim>\<open>initialize\<close>, the resumption of any waiting call, and the settling of \<open>p\<close> with
  \<open>res\<close>, in any order and number; no \<^verbatim>\<open>dispose\<close>.
\<close>

fun allowed :: "pid \<Rightarrow> error + 'h \<Rightarrow> 'h event \<Rightarrow> bool" where
  "allowed p res (Initialize c modelName) = True"
| "allowed p res (Settle q r) = (q = p \<and> r = res)"
| "allowed p res (Resume c) = True"
| "allowed p res Dispose = False"

text \<open>
  What a call of \<^verbatim>\<open>initialize\<close> that shares the load returns, and the pipeline it finds
  in the service when it returns.
\<close>

fun load_outcome :: "error + 'h \<Rightarrow> error + unit" where
  "load_outcome (Inl e) = Inl e"
| "load_outcome (Inr h) = Inr ()"

fun load_handle :: "error + 'h \<Rightarrow> 'h option" where
  "load_handle (Inl e) = None"
| "load_handle (Inr h) = Some h"

text \<open>
  The load \<open>p\<close> has settled.
\<close>

fun settled_state :: "error + 'h \<Rightarrow> pstate" where
  "settled_state (Inl e) = Rejected e"
| "settled_state (Inr h) = Fulfilled"

definition settled :: "pid \<Rightarrow> 'h world \<Rightarrow> bool" where
  "settled p w = (p < length (promises w) \<and> promises w ! p \<noteq> Pending)"

text \<open>
  The invariant of such runs. Every waiting call waits for \<open>p\<close>. Before \<open>p\<close> settles, no
  pipeline is stored, and \<open>p\<close> is either the promise the service holds or the next one to
  be created. Once \<open>p\<close> has settled with \<open>res\<close>, the promise and the \<^verbatim>\<open>transcriber\<close> field
  show \<open>res\<close>.
\<close>

definition coherent :: "pid \<Rightarrow> error + 'h \<Rightarrow> 'h world \<Rightarrow> bool" where
  "coherent p res w =
     ((\<forall>e\<in>set (suspended w). snd (snd e) = Some p) \<and>
      (if settled p w
       then promises w ! p = settled_state res \<and> transcriber (svc w) = load_handle res
            \<and> (if isLoading (svc w) then loadingPromise (svc w) = Some p
                else transcriber (svc w) \<noteq> None)
       else transcriber (svc w) = None
            \<and> (if isLoading (svc w)
                then loadingPromise (svc w) = Some p \<and> p < length (promises w)
                else p = length (promises w))))"

section \<open>The length the specification gives\<close>

text \<open>
  The specification's formula for the length of the resampled sequence,
  \<open>round (len x * r_out / r_in)\<close> with a tie rounded up, in exact arithmetic.
\<close>

definition spec_length :: "nat \<Rightarrow> rat \<Rightarrow> rat \<Rightarrow> int" where
  "spec_length n r_in r_out = \<lfloor>of_nat n * r_out / r_in + 1 / 2\<rfloor>"

section \<open>Rounding to the nearest integer\<close>

lemma rne_cases: "rne x = \<lfloor>x\<rfloor> \<or> rne x = \<lfloor>x\<rfloor> + 1"
  by (simp add: rne_def Let_def)

lemma rne_upper: "of_int (rne x) \<le> x + 1 / 2"
  unfolding rne_def Let_def
  by (auto simp: not_less) (linarith+)?

lemma rne_lower: "x - 1 / 2 \<le> of_int (rne x)"
  unfolding rne_def Let_def
  by (auto simp: not_less) (linarith+)?

lemma rne_of_int [simp]: "rne (of_int n) = n"
  by (simp add: rne_def)

lemma rne_mono:
  assumes "x \<le> y"
  shows "rne x \<le> rne y"
proof (cases "\<lfloor>x\<rfloor> = \<lfloor>y\<rfloor>")
  case False
  moreover have "\<lfloor>x\<rfloor> \<le> \<lfloor>y\<rfloor>"
    using assms by (rule floor_mono)
  ultimately have "\<lfloor>x\<rfloor> + 1 \<le> \<lfloor>y\<rfloor>"
    by linarith
  then show ?thesis
    using rne_cases [of x] rne_cases [of y] by linarith
next
  case True
  then show ?thesis
    using assms unfolding rne_def Let_def by auto
qed

lemma rne_minus: "rne (- x) = - rne x"
proof (cases "x = of_int \<lfloor>x\<rfloor>")
  case True
  then obtain n where "x = of_int n" ..
  then have "- x = of_int (- n)" by simp
  then show ?thesis
    using \<open>x = of_int n\<close> by (metis rne_of_int)
next
  case False
  then have f: "\<lfloor>- x\<rfloor> = - \<lfloor>x\<rfloor> - 1"
    by (simp add: floor_minus ceiling_altdef)
  show ?thesis
    unfolding rne_def Let_def f
    by (auto simp: not_less) (linarith+)?
qed

lemma rne_near:
  assumes "\<bar>z - of_int n\<bar> < 1 / 2"
  shows "rne z = n"
proof -
  have "of_int (rne z) - (of_int n :: rat) < 1" "(of_int n :: rat) - of_int (rne z) < 1"
    using rne_upper [of z] rne_lower [of z] assms by linarith+
  then have "rne z - n < 1" "n - rne z < 1"
    by (metis of_int_diff of_int_less_iff of_int_1)+
  then show ?thesis by linarith
qed

section \<open>The binary exponent\<close>

lemma ilog2_bounds:
  assumes "0 < x"
  shows "2 powi (ilog2 x) \<le> x" and "x < 2 powi (ilog2 x + 1)"
proof -
  have "2 powi (ilog2 x) \<le> x \<and> x < 2 powi (ilog2 x + 1)"
  proof (cases "1 \<le> x")
    case True
    define n where "n = \<lfloor>x\<rfloor>"
    have n: "1 \<le> n" "of_int n \<le> x" "x < of_int n + 1"
      using True floor_correct [of x] by (auto simp: n_def le_floor_iff)
    then have b: "2 ^ nat (bitlen n - 1) \<le> n" "n < 2 ^ nat (bitlen n)"
      using bitlen_bounds [of n] by auto
    have pos: "1 \<le> bitlen n"
      using n(1) b(2) by (smt (verit) bitlen_nonneg nat_0_iff power_0)
    have e: "ilog2 x = bitlen n - 1"
      using True by (simp add: ilog2_def n_def)
    have "(2::rat) powi (bitlen n - 1) = of_int (2 ^ nat (bitlen n - 1))"
      using pos by (simp add: power_int_def)
    also have "\<dots> \<le> of_int n"
      using b(1) by (simp only: of_int_le_iff)
    finally have 1: "2 powi (ilog2 x) \<le> x"
      using n(2) e by simp
    have "n + 1 \<le> 2 ^ nat (bitlen n)"
      using b(2) by simp
    then have "(of_int (n + 1) :: rat) \<le> of_int (2 ^ nat (bitlen n))"
      by (simp only: of_int_le_iff)
    also have "\<dots> = 2 powi (bitlen n)"
      using pos by (simp add: power_int_def)
    finally have 2: "x < 2 powi (ilog2 x + 1)"
      using n(3) e by simp
    from 1 2 show ?thesis ..
  next
    case False
    define m where "m = \<lceil>1 / x\<rceil>"
    define k where "k = bitlen (m - 1)"
    have y: "1 < 1 / x"
      using False assms by simp
    have m: "2 \<le> m" "1 / x \<le> of_int m" "of_int m - 1 < 1 / x"
      using y ceiling_correct [of "1 / x"] by (auto simp: m_def) (linarith+)?
    then have b: "2 ^ nat (k - 1) \<le> m - 1" "m - 1 < 2 ^ nat k"
      using bitlen_bounds [of "m - 1"] by (auto simp: k_def)
    have pos: "1 \<le> k"
      using m(1) b(2) by (smt (verit) bitlen_nonneg k_def nat_0_iff power_0)
    have e: "ilog2 x = - k"
      using False by (simp add: ilog2_def m_def k_def)
    have "1 / x \<le> of_int m"
      by (rule m(2))
    also have "(of_int m :: rat) \<le> of_int (2 ^ nat k)"
      using b(2) by (simp only: of_int_le_iff)
    also have "\<dots> = 2 powi k"
      using pos by (simp add: power_int_def)
    finally have "1 / x \<le> 2 powi k" .
    then have 1: "2 powi (- k) \<le> x"
      using assms by (simp add: power_int_minus field_simps)
    have "(2::rat) powi (k - 1) = of_int (2 ^ nat (k - 1))"
      using pos by (simp add: power_int_def)
    also have "\<dots> \<le> of_int (m - 1)"
      using b(1) by (simp only: of_int_le_iff)
    also have "\<dots> < 1 / x"
      using m(3) by simp
    finally have "2 powi (k - 1) < 1 / x" .
    then have "x * 2 powi (k - 1) < 1"
      using assms by (simp add: field_simps)
    moreover have "(2::rat) powi (- k + 1) = 1 / 2 powi (k - 1)"
      using power_int_minus [of "2::rat" "k - 1"] by (simp add: field_simps)
    moreover have "0 < (2::rat) powi (k - 1)"
      by simp
    ultimately have 2: "x < 2 powi (- k + 1)"
      by (simp add: pos_less_divide_eq)
    from 1 2 e show ?thesis by simp
  qed
  then show "2 powi (ilog2 x) \<le> x" and "x < 2 powi (ilog2 x + 1)"
    by simp_all
qed

lemma ilog2_less_iff:
  assumes "0 < x"
  shows "ilog2 x < k \<longleftrightarrow> x < 2 powi k"
proof
  assume "ilog2 x < k"
  then have "(2::rat) powi (ilog2 x + 1) \<le> 2 powi k"
    by (intro power_int_increasing) auto
  then show "x < 2 powi k"
    using ilog2_bounds(2) [OF assms] by linarith
next
  assume a: "x < 2 powi k"
  show "ilog2 x < k"
  proof (rule ccontr)
    assume "\<not> ilog2 x < k"
    then have "(2::rat) powi k \<le> 2 powi (ilog2 x)"
      by (intro power_int_increasing) auto
    then show False
      using ilog2_bounds(1) [OF assms] a by linarith
  qed
qed

lemma ilog2_ge_iff:
  assumes "0 < x"
  shows "k \<le> ilog2 x \<longleftrightarrow> 2 powi k \<le> x"
  using ilog2_less_iff [OF assms, of k] by linarith

lemma ilog2_mono:
  assumes "0 < x" "x \<le> y"
  shows "ilog2 x \<le> ilog2 y"
proof -
  have "2 powi (ilog2 x) \<le> y"
    using ilog2_bounds(1) [OF assms(1)] assms(2) by linarith
  then show ?thesis
    using assms by (simp add: ilog2_ge_iff)
qed

section \<open>Rounding to a floating-point format\<close>

lemma ulp_of_pos [simp]: "0 < ulp_of p emin x"
  by (simp add: ulp_of_def)

lemma ulp_of_nonneg [simp]: "0 \<le> ulp_of p emin x"
  by (simp add: ulp_of_def)

lemma ulp_of_minus [simp]: "ulp_of p emin (- x) = ulp_of p emin x"
  by (simp add: ulp_of_def)

lemma round_to_alt:
  "round_to p emin x = of_int (rne (x / ulp_of p emin x)) * ulp_of p emin x"
proof (cases "x = 0")
  case True
  have "rne 0 = 0"
    using rne_of_int [of 0] by simp
  then show ?thesis
    using True by (simp add: round_to_def)
next
  case False
  then show ?thesis
    by (simp add: round_to_def ulp_of_def Let_def)
qed

lemma round_to_zero [simp]: "round_to p emin 0 = 0"
  by (simp add: round_to_def)

lemma round_to_minus: "round_to p emin (- x) = - round_to p emin x"
  by (simp add: round_to_alt rne_minus)

lemma round_to_error: "\<bar>round_to p emin x - x\<bar> \<le> ulp_of p emin x / 2"
proof -
  define u where "u = ulp_of p emin x"
  define a :: rat where "a = of_int (rne (x / u))"
  have u: "0 < u" by (simp add: u_def)
  have h: "\<bar>a - x / u\<bar> \<le> 1 / 2"
    using rne_upper [of "x / u"] rne_lower [of "x / u"] unfolding a_def by linarith
  have eq: "a * u - x = (a - x / u) * u"
    using u by (simp add: field_simps)
  have "\<bar>a * u - x\<bar> = \<bar>a - x / u\<bar> * \<bar>u\<bar>"
    unfolding eq by (rule abs_mult)
  also have "\<dots> = \<bar>a - x / u\<bar> * u"
    using u by simp
  also have "\<dots> \<le> 1 / 2 * u"
    using h u by (intro mult_right_mono) auto
  finally show ?thesis
    by (simp add: round_to_alt u_def a_def)
qed

lemma ulp_of_normal:
  assumes "2 powi emin \<le> \<bar>x\<bar>"
  shows "ulp_of p emin x \<le> \<bar>x\<bar> * 2 / 2 ^ p"
proof -
  have pos: "0 < \<bar>x\<bar>"
    using assms zero_less_power_int [of "2::rat" emin] by linarith
  have "emin \<le> ilog2 \<bar>x\<bar>"
    using assms pos by (simp add: ilog2_ge_iff)
  then have "ulp_of p emin x = 2 powi (ilog2 \<bar>x\<bar> + (1 - int p))"
    by (simp add: ulp_of_def max_def algebra_simps)
  also have "\<dots> = 2 powi (ilog2 \<bar>x\<bar>) * 2 powi (1 - int p)"
    by (rule power_int_add) simp
  also have "(2::rat) powi (1 - int p) = 2 / 2 ^ p"
    by (simp add: power_int_diff)
  finally have "ulp_of p emin x = 2 powi (ilog2 \<bar>x\<bar>) * (2 / 2 ^ p)" .
  moreover have "2 powi (ilog2 \<bar>x\<bar>) * (2 / 2 ^ p) \<le> \<bar>x\<bar> * (2 / 2 ^ p)"
    using ilog2_bounds(1) [OF pos] by (intro mult_right_mono) auto
  ultimately show ?thesis by simp
qed

lemma round_to_rel_error:
  assumes "2 powi emin \<le> \<bar>x\<bar>"
  shows "\<bar>round_to p emin x - x\<bar> \<le> \<bar>x\<bar> / 2 ^ p"
proof -
  define d where "d = \<bar>round_to p emin x - x\<bar>"
  define b where "b = \<bar>x\<bar> / 2 ^ p"
  have "\<bar>x\<bar> * 2 / 2 ^ p = 2 * b"
    by (simp add: b_def)
  then have "ulp_of p emin x \<le> 2 * b"
    using ulp_of_normal [OF assms, of p] by simp
  moreover have "d \<le> ulp_of p emin x / 2"
    unfolding d_def by (rule round_to_error)
  ultimately have "d \<le> b"
    by linarith
  then show ?thesis
    by (simp add: d_def b_def)
qed

lemma round_to_nonneg:
  assumes "0 \<le> x"
  shows "0 \<le> round_to p emin x"
proof -
  have "0 \<le> x / ulp_of p emin x"
    using assms by simp
  then have "rne 0 \<le> rne (x / ulp_of p emin x)"
    by (rule rne_mono)
  moreover have "rne 0 = 0"
    using rne_of_int [of 0] by simp
  ultimately show ?thesis
    by (simp add: round_to_alt)
qed

lemma round_to_nonpos:
  assumes "x \<le> 0"
  shows "round_to p emin x \<le> 0"
  using round_to_nonneg [of "- x" p emin] assms by (simp add: round_to_minus)

lemma round_to_upper_binade:
  assumes "0 < x" and e: "e = max (ilog2 x) emin"
  shows "round_to p emin x \<le> 2 powi (e + 1)"
proof -
  define u where "u = ulp_of p emin x"
  have u: "0 < u" "u = 2 powi (e - int p + 1)"
    using assms by (simp_all add: u_def ulp_of_def)
  have "ilog2 x < e + 1"
    using e by simp
  then have "x < 2 powi (e + 1)"
    by (rule iffD1 [OF ilog2_less_iff [OF assms(1)]])
  also have "(2::rat) powi (e + 1) = 2 powi (e - int p + 1 + int p)"
    by simp
  also have "\<dots> = u * 2 ^ p"
    unfolding u(2) by (subst power_int_add) auto
  finally have "x / u \<le> of_int (2 ^ p)"
    using u(1) by (simp add: field_simps)
  then have "rne (x / u) \<le> rne (of_int (2 ^ p))"
    by (rule rne_mono)
  then have "rne (x / u) \<le> 2 ^ p"
    by (simp only: rne_of_int)
  then have "(of_int (rne (x / u)) :: rat) \<le> of_int (2 ^ p)"
    by (simp only: of_int_le_iff)
  then have "of_int (rne (x / u)) * u \<le> of_int (2 ^ p) * u"
    using u(1) by (intro mult_right_mono) auto
  also have "of_int (2 ^ p) * u = 2 powi (e - int p + 1 + int p)"
    unfolding u(2) by (subst power_int_add) auto
  finally show ?thesis
    by (simp add: round_to_alt u_def)
qed

lemma round_to_lower_binade:
  assumes "0 < x" and "emin \<le> ilog2 x" and "0 < p"
  shows "2 powi (ilog2 x) \<le> round_to p emin x"
proof -
  define e where "e = ilog2 x"
  define u where "u = ulp_of p emin x"
  have u: "0 < u" "u = 2 powi (e - int p + 1)"
    using assms by (simp_all add: u_def ulp_of_def e_def max_def)
  have eq: "(2::rat) powi e = of_int (2 ^ (p - 1)) * u"
  proof -
    have "(2::rat) powi e = 2 powi (int (p - 1) + (e - int p + 1))"
      using assms(3) by (simp add: of_nat_diff)
    also have "\<dots> = 2 powi (int (p - 1)) * u"
      unfolding u(2) by (rule power_int_add) simp
    finally show ?thesis by simp
  qed
  have "2 powi e \<le> x"
    using ilog2_bounds(1) [OF assms(1)] by (simp add: e_def)
  then have "of_int (2 ^ (p - 1)) \<le> x / u"
    using u(1) eq by (simp add: field_simps)
  then have "rne (of_int (2 ^ (p - 1))) \<le> rne (x / u)"
    by (rule rne_mono)
  then have "2 ^ (p - 1) \<le> rne (x / u)"
    by (simp only: rne_of_int)
  then have "(of_int (2 ^ (p - 1)) :: rat) \<le> of_int (rne (x / u))"
    by (simp only: of_int_le_iff)
  then have "of_int (2 ^ (p - 1)) * u \<le> of_int (rne (x / u)) * u"
    using u(1) by (intro mult_right_mono) auto
  then show ?thesis
    using eq by (simp add: round_to_alt u_def e_def)
qed

lemma round_to_mono_pos:
  assumes "0 < x" "x \<le> y" "0 < p"
  shows "round_to p emin x \<le> round_to p emin y"
proof -
  define ex where "ex = max (ilog2 x) emin"
  define ey where "ey = max (ilog2 y) emin"
  have y: "0 < y" using assms by linarith
  have le: "ex \<le> ey"
    using ilog2_mono [OF assms(1,2)] by (simp add: ex_def ey_def max_def)
  show ?thesis
  proof (cases "ex = ey")
    case True
    then have u: "ulp_of p emin x = ulp_of p emin y"
      using assms(1) y by (simp add: ulp_of_def ex_def ey_def)
    have "x / ulp_of p emin y \<le> y / ulp_of p emin y"
      using assms(2) by (intro divide_right_mono) auto
    then have "rne (x / ulp_of p emin y) \<le> rne (y / ulp_of p emin y)"
      by (rule rne_mono)
    then have "(of_int (rne (x / ulp_of p emin y)) :: rat) \<le> of_int (rne (y / ulp_of p emin y))"
      by (simp only: of_int_le_iff)
    then have "of_int (rne (x / ulp_of p emin y)) * ulp_of p emin y
               \<le> of_int (rne (y / ulp_of p emin y)) * ulp_of p emin y"
      by (intro mult_right_mono) auto
    then show ?thesis
      by (simp add: round_to_alt u)
  next
    case False
    then have lt: "ex < ey" using le by simp
    then have ey: "ey = ilog2 y" "emin \<le> ilog2 y"
      by (auto simp: ex_def ey_def max_def split: if_splits)
    have "round_to p emin x \<le> 2 powi (ex + 1)"
      using round_to_upper_binade [OF assms(1)] by (simp add: ex_def)
    also have "\<dots> \<le> 2 powi ey"
      using lt by (intro power_int_increasing) auto
    also have "\<dots> \<le> round_to p emin y"
      using round_to_lower_binade [OF y ey(2) assms(3)] ey(1) by simp
    finally show ?thesis .
  qed
qed

lemma round_to_mono:
  assumes "x \<le> y" "0 < p"
  shows "round_to p emin x \<le> round_to p emin y"
proof -
  consider "0 < x" | "y < 0" | "x \<le> 0" "0 \<le> y"
    by linarith
  then show ?thesis
  proof cases
    case 1
    then show ?thesis using assms by (intro round_to_mono_pos)
  next
    case 2
    then have "round_to p emin (- y) \<le> round_to p emin (- x)"
      using assms by (intro round_to_mono_pos) auto
    then show ?thesis by (simp add: round_to_minus)
  next
    case 3
    then show ?thesis
      using round_to_nonneg [of y p emin] round_to_nonpos [of x p emin] by linarith
  qed
qed

lemma round_to_fixed_grid:
  assumes "round_to p emin m = m"
  shows "m / ulp_of p emin m = of_int (rne (m / ulp_of p emin m))"
proof -
  have h: "of_int (rne (m / ulp_of p emin m)) * ulp_of p emin m = m"
    using assms by (simp add: round_to_alt)
  have "ulp_of p emin m \<noteq> 0"
    using ulp_of_pos [of p emin m] by linarith
  then have "of_int (rne (m / ulp_of p emin m)) * ulp_of p emin m / ulp_of p emin m
             = of_int (rne (m / ulp_of p emin m))"
    by simp
  then show ?thesis
    unfolding h by simp
qed

lemma quarter: "0 < p \<Longrightarrow> (2::rat) ^ p / 2 ^ (p + 2) = 1 / 4"
  by (simp add: power_add)

lemma grid_upper:
  assumes "0 < m" "0 < p"
  shows "m / ulp_of p emin m < 2 ^ p"
proof -
  define e where "e = max (ilog2 m) emin"
  have u: "ulp_of p emin m = 2 powi (e - int p + 1)"
    using assms by (simp add: ulp_of_def e_def)
  have "ilog2 m < e + 1"
    by (simp add: e_def)
  then have "m < 2 powi (e + 1)"
    by (rule iffD1 [OF ilog2_less_iff [OF assms(1)]])
  also have "(2::rat) powi (e + 1) = 2 powi (e - int p + 1 + int p)"
    by simp
  also have "\<dots> = ulp_of p emin m * 2 ^ p"
    unfolding u by (subst power_int_add) auto
  finally show ?thesis
    by (simp add: field_simps)
qed

lemma round_to_near_above:
  assumes p: "0 < p" and fixd: "round_to p emin m = m" and m: "0 < m"
    and y: "m \<le> y" "y \<le> m + m / 2 ^ (p + 2)"
  shows "round_to p emin y = m"
proof -
  define u where "u = ulp_of p emin m"
  define n where "n = rne (m / u)"
  define e where "e = max (ilog2 m) emin"
  have u: "0 < u" "u = 2 powi (e - int p + 1)"
    using m by (simp_all add: u_def ulp_of_def e_def)
  have mn: "m / u = of_int n"
    using round_to_fixed_grid [OF fixd] by (simp add: u_def n_def)
  have ypos: "0 < y" using m y by linarith
  have "of_int n < (2::rat) ^ p"
    using grid_upper [OF m p, of emin] mn by (simp add: u_def)
  then have "(of_int n :: rat) < of_int (2 ^ p)"
    by simp
  then have "n < 2 ^ p"
    by (simp only: of_int_less_iff)
  then have "n + 1 \<le> 2 ^ p"
    by simp
  then have "(of_int (n + 1) :: rat) \<le> of_int (2 ^ p)"
    by (simp only: of_int_le_iff)
  then have n1: "of_int n + 1 \<le> (2::rat) ^ p"
    by simp
  have npos: "0 < (of_int n :: rat)"
    using m u(1) mn by (metis divide_pos_pos)
  have "y / u \<le> (m + m / 2 ^ (p + 2)) / u"
    using y(2) u(1) by (intro divide_right_mono) auto
  also have "\<dots> = m / u + m / u / 2 ^ (p + 2)"
    by (simp add: add_divide_distrib)
  also have "\<dots> = of_int n + of_int n / 2 ^ (p + 2)"
    unfolding mn ..
  finally have yu: "y / u \<le> of_int n + of_int n / 2 ^ (p + 2)" .
  have nle: "(of_int n :: rat) \<le> 2 ^ p"
    using n1 by linarith
  have "(of_int n :: rat) / 2 ^ (p + 2) \<le> 2 ^ p / 2 ^ (p + 2)"
    by (rule divide_right_mono [OF nle]) simp
  then have nq: "(of_int n :: rat) / 2 ^ (p + 2) \<le> 1 / 4"
    using quarter [OF p] by simp
  have ylo: "of_int n \<le> y / u"
    using y(1) u(1) mn by (metis divide_right_mono less_imp_le)
  have "y / u < 2 ^ p"
    using yu nq n1 by linarith
  then have "y < 2 ^ p * u"
    using u(1) by (simp add: field_simps)
  also have "2 ^ p * u = 2 powi (int p + (e - int p + 1))"
    unfolding u(2) by (subst power_int_add) auto
  finally have "y < 2 powi (e + 1)"
    by simp
  then have "ilog2 y < e + 1"
    by (rule iffD2 [OF ilog2_less_iff [OF ypos]])
  moreover have "ilog2 m \<le> ilog2 y"
    using m y(1) by (rule ilog2_mono)
  ultimately have "max (ilog2 y) emin = e"
    unfolding e_def by linarith
  then have uy: "ulp_of p emin y = u"
    using ypos by (simp add: ulp_of_def u(2))
  have "\<bar>y / u - of_int n\<bar> < 1 / 2"
    using yu nq ylo by linarith
  then have "rne (y / u) = n"
    by (rule rne_near)
  then have "round_to p emin y = of_int n * u"
    by (simp add: round_to_alt uy)
  also have "\<dots> = m"
    using mn u(1) by (simp add: field_simps)
  finally show ?thesis .
qed

lemma round_to_near_below:
  assumes p: "0 < p" and fixd: "round_to p emin m = m" and m: "0 < m"
    and y: "m - m / 2 ^ (p + 2) \<le> y" "y \<le> m"
  shows "round_to p emin y = m"
proof -
  define u where "u = ulp_of p emin m"
  define n where "n = rne (m / u)"
  define e where "e = max (ilog2 m) emin"
  have u: "0 < u" "u = 2 powi (e - int p + 1)"
    using m by (simp_all add: u_def ulp_of_def e_def)
  have mn: "m / u = of_int n"
    using round_to_fixed_grid [OF fixd] by (simp add: u_def n_def)
  have mu: "of_int n * u = m"
    using mn u(1) by (simp add: field_simps)
  have "(1::rat) < 2 ^ (p + 2)"
    by (rule one_less_power) simp_all
  then have "m / 2 ^ (p + 2) < m"
    using m by (simp add: field_simps)
  then have ypos: "0 < y"
    using y(1) by linarith
  have "of_int n < (2::rat) ^ p"
    using grid_upper [OF m p, of emin] mn by (simp add: u_def)
  then have nle: "(of_int n :: rat) \<le> 2 ^ p"
    by simp
  have "(of_int n :: rat) / 2 ^ (p + 2) \<le> 2 ^ p / 2 ^ (p + 2)"
    by (rule divide_right_mono [OF nle]) simp
  then have nq: "(of_int n :: rat) / 2 ^ (p + 2) \<le> 1 / 4"
    using quarter [OF p] by simp
  have "(m - m / 2 ^ (p + 2)) / u \<le> y / u"
    using y(1) u(1) by (intro divide_right_mono) auto
  moreover have "(m - m / 2 ^ (p + 2)) / u = m / u - m / u / 2 ^ (p + 2)"
    by (simp add: diff_divide_distrib)
  ultimately have ylo: "of_int n - of_int n / 2 ^ (p + 2) \<le> y / u"
    unfolding mn by simp
  have yhi: "y / u \<le> of_int n"
    using y(2) u(1) mn by (metis divide_right_mono less_imp_le)
  have ele: "max (ilog2 y) emin \<le> e"
    using ilog2_mono [OF ypos y(2)] unfolding e_def by linarith
  show ?thesis
  proof (cases "max (ilog2 y) emin = e")
    case True
    then have uy: "ulp_of p emin y = u"
      using ypos by (simp add: ulp_of_def u(2))
    have "\<bar>y / u - of_int n\<bar> < 1 / 2"
      using ylo yhi nq by linarith
    then have "rne (y / u) = n"
      by (rule rne_near)
    then show ?thesis
      using mu by (simp add: round_to_alt uy)
  next
    case False
    then have lt: "max (ilog2 y) emin < e"
      using ele by linarith
    then have em: "e = ilog2 m" "emin < e" "ilog2 y < e"
      unfolding e_def by linarith+
    have y_lt: "y < 2 powi e"
      using em(3) by (rule iffD1 [OF ilog2_less_iff [OF ypos]])
    have pe: "(2::rat) powi e = 2 ^ (p - 1) * u"
    proof -
      have "(2::rat) powi e = 2 powi (int (p - 1) + (e - int p + 1))"
        using p by (simp add: of_nat_diff)
      also have "\<dots> = 2 powi (int (p - 1)) * u"
        unfolding u(2) by (rule power_int_add) simp
      finally show ?thesis by simp
    qed
    have "2 powi e \<le> m"
      using ilog2_bounds(1) [OF m] em(1) by simp
    then have "2 ^ (p - 1) * u \<le> of_int n * u"
      using pe mu by simp
    then have n_ge: "(2::rat) ^ (p - 1) \<le> of_int n"
      using u(1) by simp
    have "y / u < 2 ^ (p - 1)"
      using y_lt u(1) pe by (simp add: field_simps)
    then have "(of_int n :: rat) < 2 ^ (p - 1) + 1"
      using ylo nq by linarith
    then have "(of_int n :: rat) < of_int (2 ^ (p - 1) + 1)"
      by simp
    then have "n < 2 ^ (p - 1) + 1"
      by (simp only: of_int_less_iff)
    moreover have "(of_int (2 ^ (p - 1)) :: rat) \<le> of_int n"
      using n_ge by simp
    then have "2 ^ (p - 1) \<le> n"
      by (simp only: of_int_le_iff)
    ultimately have n_eq: "n = 2 ^ (p - 1)"
      by linarith
    have nr: "(of_int n :: rat) = 2 ^ (p - 1)"
      by (simp add: n_eq)
    have pp: "(2::rat) ^ (p + 2) = 8 * 2 ^ (p - 1)"
    proof -
      have "p + 2 = 3 + (p - 1)" using p by simp
      then have "(2::rat) ^ (p + 2) = 2 ^ 3 * 2 ^ (p - 1)"
        by (simp only: power_add)
      then show ?thesis by simp
    qed
    have n8: "(of_int n :: rat) / 2 ^ (p + 2) = 1 / 8"
      unfolding nr pp by simp
    have one: "(1::rat) \<le> 2 ^ (p - 1)"
      by (rule one_le_power) simp
    have ylo': "2 ^ (p - 1) - 1 / 8 \<le> y / u"
      using ylo n8 nr by simp
    have yhi': "y / u < 2 ^ (p - 1)"
      by fact
    have pe1: "(2::rat) powi (e - 1) = 2 ^ (p - 1) * u / 2"
    proof -
      have "(2::rat) powi (e - 1) = 2 powi e * 2 powi (- 1)"
        using power_int_add [of "2::rat" e "- 1"] by simp
      also have "(2::rat) powi (- 1) = 1 / 2"
        by (simp add: power_int_minus)
      finally show ?thesis
        using pe by simp
    qed
    have "2 ^ (p - 1) / 2 \<le> y / u"
      using ylo' one by linarith
    then have "2 ^ (p - 1) * u / 2 \<le> y"
      using u(1) by (simp add: field_simps)
    then have "2 powi (e - 1) \<le> y"
      using pe1 by simp
    then have "e - 1 \<le> ilog2 y"
      by (rule iffD2 [OF ilog2_ge_iff [OF ypos]])
    then have ey: "max (ilog2 y) emin = e - 1"
      using em by linarith
    have uy: "ulp_of p emin y = u / 2"
    proof -
      have "ulp_of p emin y = 2 powi ((e - int p + 1) + (- 1))"
        using ypos ey by (simp add: ulp_of_def)
      also have "\<dots> = u * 2 powi (- 1)"
        unfolding u(2) by (rule power_int_add) simp
      also have "(2::rat) powi (- 1) = 1 / 2"
        by (simp add: power_int_minus)
      finally show ?thesis by simp
    qed
    have yy: "y / (u / 2) = 2 * (y / u)"
      by simp
    have "\<bar>y / (u / 2) - of_int (2 * n)\<bar> < 1 / 2"
      unfolding yy using ylo' yhi' nr by simp linarith?
    then have "rne (y / (u / 2)) = 2 * n"
      by (rule rne_near)
    then have "round_to p emin y = of_int (2 * n) * (u / 2)"
      by (simp add: round_to_alt uy)
    also have "\<dots> = m"
      using mu by simp
    finally show ?thesis .
  qed
qed

lemma round_to_near:
  assumes p: "0 < p" and fixd: "round_to p emin m = m"
    and y: "m \<le> y" "y \<le> m + \<bar>m\<bar> / 2 ^ (p + 2)"
  shows "round_to p emin y = m"
proof -
  consider "0 < m" | "m = 0" | "m < 0" by linarith
  then show ?thesis
  proof cases
    case 1
    then show ?thesis
      using round_to_near_above [OF p fixd 1 y(1)] y(2) by simp
  next
    case 2
    then have "y = 0" using y by simp
    then show ?thesis using 2 by simp
  next
    case 3
    have f: "round_to p emin (- m) = - m"
      using fixd by (simp add: round_to_minus)
    have "round_to p emin (- y) = - m"
      using round_to_near_below [OF p f, of "- y"] 3 y by simp
    then show ?thesis
      by (simp add: round_to_minus)
  qed
qed

section \<open>binary64 and binary32\<close>

lemma f64_rel_error:
  assumes "1 / 2 ^ 120 \<le> \<bar>x\<bar>"
  shows "\<bar>f64 x - x\<bar> \<le> \<bar>x\<bar> / 2 ^ 53"
proof -
  have "(2::rat) powi (- 1022) \<le> 2 powi (- 120)"
    by (rule power_int_increasing) simp_all
  also have "(2::rat) powi (- 120) = 1 / 2 ^ 120"
    using power_int_minus [of "2::rat" 120] by (simp only: power_int_numeral inverse_eq_divide)
  finally have "2 powi (- 1022) \<le> \<bar>x\<bar>"
    using assms by linarith
  then show ?thesis
    unfolding f64_def by (rule round_to_rel_error)
qed

lemma f64_bounds_pos:
  assumes "1 / 2 ^ 120 \<le> x"
  shows "(1 - 1 / 2 ^ 53) * x \<le> f64 x" and "f64 x \<le> (1 + 1 / 2 ^ 53) * x"
proof -
  define d where "d = x / 2 ^ 53"
  have "(0::rat) < 1 / 2 ^ 120"
    by simp
  then have x: "0 < x"
    using assms by linarith
  then have "\<bar>f64 x - x\<bar> \<le> d"
    using f64_rel_error [of x] assms by (simp add: d_def)
  then have "x - d \<le> f64 x" "f64 x \<le> x + d"
    by linarith+
  moreover have "(1 - 1 / 2 ^ 53) * x = x - d" "(1 + 1 / 2 ^ 53) * x = x + d"
    by (simp_all add: d_def algebra_simps)
  ultimately show "(1 - 1 / 2 ^ 53) * x \<le> f64 x" and "f64 x \<le> (1 + 1 / 2 ^ 53) * x"
    by simp_all
qed

lemma f64_nonneg: "0 \<le> x \<Longrightarrow> 0 \<le> f64 x"
  unfolding f64_def by (rule round_to_nonneg)

lemma f64_zero [simp]: "f64 0 = 0"
  by (simp add: f64_def)

lemma f64_mono: "x \<le> y \<Longrightarrow> f64 x \<le> f64 y"
  unfolding f64_def by (rule round_to_mono) auto

lemma two_powi_neg: "(2::rat) powi (- int k) = 1 / 2 ^ k"
  using power_int_minus [of "2::rat" "int k"] by (simp only: power_int_of_nat inverse_eq_divide)

lemma f64_abs_error: "\<bar>f64 x - x\<bar> \<le> \<bar>x\<bar> / 2 ^ 53 + 1 / 2 ^ 200"
proof (cases "2 powi (- 1022) \<le> \<bar>x\<bar>")
  case True
  then have "\<bar>f64 x - x\<bar> \<le> \<bar>x\<bar> / 2 ^ 53"
    unfolding f64_def by (rule round_to_rel_error)
  moreover have "(0::rat) \<le> 1 / 2 ^ 200"
    by simp
  ultimately show ?thesis by linarith
next
  case False
  show ?thesis
  proof (cases "x = 0")
    case True
    then show ?thesis by (simp add: f64_def)
  next
    case nz: False
    then have pos: "0 < \<bar>x\<bar>" by simp
    have "\<bar>x\<bar> < 2 powi (- 1022)"
      using False by (simp only: not_le)
    then have "ilog2 \<bar>x\<bar> < - 1022"
      by (rule iffD2 [OF ilog2_less_iff [OF pos]])
    then have "max (ilog2 \<bar>x\<bar>) (- 1022) = - 1022"
      by linarith
    then have "ulp_of 53 (- 1022) x = 2 powi (- 1022 - int 53 + 1)"
      unfolding ulp_of_def by (simp only:)
    also have "- 1022 - int 53 + 1 = - int 1074"
      by simp
    also have "(2::rat) powi (- int 1074) \<le> 2 powi (- int 199)"
      by (rule power_int_increasing) simp_all
    also have "(2::rat) powi (- int 199) = 1 / 2 ^ 199"
      by (rule two_powi_neg)
    finally have "ulp_of 53 (- 1022) x / 2 \<le> 1 / 2 ^ 199 / 2"
      by (rule divide_right_mono) simp
    also have "(1::rat) / 2 ^ 199 / 2 = 1 / 2 ^ 200"
      by simp
    finally have "\<bar>f64 x - x\<bar> \<le> 1 / 2 ^ 200"
      using round_to_error [of 53 "- 1022" x] unfolding f64_def by linarith
    moreover have "0 \<le> \<bar>x\<bar> / 2 ^ 53"
      by simp
    ultimately show ?thesis by linarith
  qed
qed

lemma f64_error_unit:
  assumes "\<bar>x\<bar> \<le> 1"
  shows "\<bar>f64 x - x\<bar> \<le> 1 / 2 ^ 53"
proof (cases "x = 0")
  case True
  then show ?thesis by (simp add: f64_def)
next
  case False
  then have pos: "0 < \<bar>x\<bar>" by simp
  have "\<bar>x\<bar> < 2 powi 1"
    using assms by simp
  then have "ilog2 \<bar>x\<bar> < 1"
    by (rule iffD2 [OF ilog2_less_iff [OF pos]])
  then have "max (ilog2 \<bar>x\<bar>) (- 1022) - int 53 + 1 \<le> - int 52"
    by simp
  then have "ulp_of 53 (- 1022) x \<le> 2 powi (- int 52)"
    unfolding ulp_of_def by (intro power_int_increasing) simp_all
  also have "(2::rat) powi (- int 52) = 1 / 2 ^ 52"
    by (rule two_powi_neg)
  finally have "ulp_of 53 (- 1022) x / 2 \<le> 1 / 2 ^ 52 / 2"
    by (rule divide_right_mono) simp
  also have "(1::rat) / 2 ^ 52 / 2 = 1 / 2 ^ 53"
    by simp
  finally show ?thesis
    using round_to_error [of 53 "- 1022" x] unfolding f64_def by linarith
qed

lemma f64_minus: "f64 (- x) = - f64 x"
  by (simp add: f64_def round_to_minus)

lemma f64_nonpos: "x \<le> 0 \<Longrightarrow> f64 x \<le> 0"
  unfolding f64_def by (rule round_to_nonpos)

text \<open>
  The dyadic rationals with a numerator below \<open>2 ^ 53\<close> are binary64 values; so are the
  integers and the half-integers below \<open>2 ^ 52\<close>.
\<close>

lemma f64_dyadic:
  assumes "0 < m" "m < 2 ^ 53" "j \<le> 1000"
  shows "f64 (of_int m / 2 ^ j) = of_int m / 2 ^ j"
proof -
  define x :: rat where "x = of_int m / 2 ^ j"
  define e where "e = ilog2 x"
  have "1 \<le> m"
    using assms(1) by simp
  then have "(of_int 1 :: rat) \<le> of_int m"
    by (simp only: of_int_le_iff)
  then have x0: "1 / 2 ^ j \<le> x"
    by (simp add: x_def divide_right_mono)
  have xpos: "0 < x"
    using assms(1) by (simp add: x_def)
  have m53: "(of_int m :: rat) < 2 ^ 53"
    using assms(2) of_int_less_iff [of m "2 ^ 53", where ?'a = rat] by simp
  have "(2::rat) powi (- int j) \<le> x"
    using x0 by (simp only: two_powi_neg)
  then have e0: "- int j \<le> e"
    unfolding e_def by (simp only: ilog2_ge_iff [OF xpos])
  have "2 powi (53 - int j) = (2::rat) powi 53 * 2 powi (- int j)"
    by (subst power_int_add [symmetric]) simp_all
  also have "\<dots> = 2 ^ 53 / 2 ^ j"
    by (simp only: two_powi_neg) simp
  finally have "x < 2 powi (53 - int j)"
    using m53 by (simp add: x_def divide_strict_right_mono)
  then have e1: "e < 53 - int j"
    unfolding e_def by (simp only: ilog2_less_iff [OF xpos])
  define k where "k = nat (52 - int j - e)"
  have k: "int k = 52 - int j - e"
    using e1 by (simp add: k_def)
  have m: "max e (- 1022) = e"
    using e0 assms(3) by simp
  have "ulp_of 53 (- 1022) x = 2 powi (e - 52)"
    using xpos m by (simp add: ulp_of_def e_def)
  also have "e - 52 = - int (k + j)"
    using k by simp
  finally have u: "ulp_of 53 (- 1022) x = 1 / 2 ^ (k + j)"
    by (simp only: two_powi_neg)
  have q: "x / ulp_of 53 (- 1022) x = of_int (m * 2 ^ k)"
    unfolding u by (simp add: x_def power_add)
  have "round_to 53 (- 1022) x = of_int (rne (x / ulp_of 53 (- 1022) x)) * ulp_of 53 (- 1022) x"
    by (rule round_to_alt)
  also have "\<dots> = of_int (m * 2 ^ k) * ulp_of 53 (- 1022) x"
    unfolding q by (simp only: rne_of_int)
  also have "\<dots> = x"
    unfolding u by (simp add: x_def power_add)
  finally show ?thesis
    by (simp add: f64_def x_def)
qed

lemma f64_half_integer:
  assumes "0 < m" "m < 2 ^ 53"
  shows "f64 (of_int m / 2) = of_int m / 2"
  using f64_dyadic [OF assms, of 1] by simp

lemma f32_mono: "x \<le> y \<Longrightarrow> f32 x \<le> f32 y"
  unfolding f32_def by (rule round_to_mono) auto

lemma f32_minus: "f32 (- x) = - f32 x"
  by (simp add: f32_def round_to_minus)

lemma f32_zero [simp]: "f32 0 = 0"
  by (simp add: f32_def)

lemma f32_near:
  assumes "f32 m = m" "m \<le> y" "y \<le> m + \<bar>m\<bar> / 2 ^ 26"
  shows "f32 y = m"
proof -
  have p: "0 < (24::nat)"
    by simp
  have f: "round_to 24 (- 126) m = m"
    using assms(1) by (simp only: f32_def)
  have "(2::rat) ^ (24 + 2) = 2 ^ 26"
    by simp
  then have y: "y \<le> m + \<bar>m\<bar> / 2 ^ (24 + 2)"
    using assms(3) by (simp only:)
  show ?thesis
    unfolding f32_def by (rule round_to_near [OF p f assms(2) y])
qed

lemma f32_least:
  assumes "f32 m = m" "m \<noteq> 0"
  shows "1 / 2 ^ 149 \<le> \<bar>m\<bar>"
proof -
  define u where "u = ulp_of 24 (- 126) m"
  define n where "n = rne (m / u)"
  have u: "0 < u" by (simp add: u_def)
  have mu: "of_int n * u = m"
    using assms(1) by (simp add: f32_def round_to_alt u_def n_def)
  then have "n \<noteq> 0"
    using assms(2) by auto
  then have "1 \<le> \<bar>n\<bar>"
    by linarith
  then have "(of_int 1 :: rat) \<le> of_int \<bar>n\<bar>"
    by (simp only: of_int_le_iff)
  then have "(1::rat) \<le> \<bar>of_int n\<bar>"
    by simp
  then have "1 * u \<le> \<bar>of_int n\<bar> * u"
    using u by (intro mult_right_mono) auto
  also have "\<bar>of_int n\<bar> * u = \<bar>m\<bar>"
    using u mu by (metis abs_mult abs_of_pos)
  finally have um: "u \<le> \<bar>m\<bar>" by simp
  have "- int 149 \<le> max (ilog2 \<bar>m\<bar>) (- 126) - int 24 + 1"
    by simp
  then have "(2::rat) powi (- int 149) \<le> u"
    unfolding u_def ulp_of_def by (intro power_int_increasing) simp_all
  moreover have "(2::rat) powi (- int 149) = 1 / 2 ^ 149"
    by (rule two_powi_neg)
  ultimately show ?thesis
    using um by linarith
qed

section \<open>The quotients of the resampler\<close>

text \<open>
  Where the input rate is a whole multiple of the output rate, the ratio of the rates is
  computed exactly.
\<close>

lemma fdiv_exact_multiple:
  fixes a b :: nat
  assumes "0 < a" "a < 2 ^ 53" "b dvd a"
  shows "fdiv (of_nat a) (of_nat b) = of_nat a / of_nat b"
proof -
  obtain k where k: "a = b * k"
    using assms(3) by (auto simp: dvd_def)
  have b: "0 < b" and k0: "0 < k"
    using assms(1) k by simp_all
  have "k \<le> a"
    using k b by simp
  then have "int k < 2 ^ 53" "0 < int k"
    using assms(2) k0 by simp_all
  then have "f64 (of_int (int k) / 2 ^ 0) = of_int (int k) / 2 ^ 0"
    by (intro f64_dyadic) simp_all
  then have f: "f64 (of_nat k) = of_nat k"
    by simp
  have "(of_nat a :: rat) / of_nat b = of_nat k"
    using b by (simp add: k)
  then show ?thesis
    using f by (simp add: fdiv_def)
qed

lemma ratio_bounds:
  fixes a b :: nat
  assumes "0 < a" "0 < b" "b < 2 ^ 50"
  shows "0 < fdiv (of_nat a) (of_nat b)"
    and "(1 - 1 / 2 ^ 53) * of_nat a \<le> of_nat b * fdiv (of_nat a) (of_nat b)"
    and "of_nat b * fdiv (of_nat a) (of_nat b) \<le> (1 + 1 / 2 ^ 53) * of_nat a"
proof -
  define A :: rat where "A = of_nat a"
  define B :: rat where "B = of_nat b"
  define r where "r = A / B"
  have "1 \<le> a" "b \<le> 2 ^ 50"
    using assms by simp_all
  then have "(of_nat 1 :: rat) \<le> of_nat a" "(of_nat b :: rat) \<le> of_nat (2 ^ 50)"
    by (simp_all only: of_nat_le_iff)
  then have A: "1 \<le> A" and B50: "B \<le> 2 ^ 50"
    by (simp_all add: A_def B_def)
  have B: "0 < B"
    using assms by (simp add: B_def)
  have br: "B * r = A"
    using B by (simp add: r_def)
  have "1 / 2 ^ 50 \<le> 1 / B"
    using B B50 by (simp add: field_simps)
  also have "1 / B \<le> r"
    unfolding r_def using A B by (intro divide_right_mono) auto
  finally have r50: "1 / 2 ^ 50 \<le> r" .
  have "(1::rat) / 2 ^ 120 \<le> 1 / 2 ^ 50"
    by simp
  then have r120: "1 / 2 ^ 120 \<le> r"
    using r50 by linarith
  have lo: "(1 - 1 / 2 ^ 53) * r \<le> f64 r" and hi: "f64 r \<le> (1 + 1 / 2 ^ 53) * r"
    using f64_bounds_pos [OF r120] by simp_all
  have rpos: "0 < r"
    using r50 by (simp add: less_le_trans [of 0 "1 / 2 ^ 50"])
  have "0 < (1 - 1 / 2 ^ 53) * r"
    using rpos by simp
  then have pos: "0 < f64 r"
    using lo by linarith
  have "B * ((1 - 1 / 2 ^ 53) * r) \<le> B * f64 r"
    using lo B by (intro mult_left_mono) auto
  then have 1: "(1 - 1 / 2 ^ 53) * A \<le> B * f64 r"
    using br by (simp add: algebra_simps)
  have "B * f64 r \<le> B * ((1 + 1 / 2 ^ 53) * r)"
    using hi B by (intro mult_left_mono) auto
  then have 2: "B * f64 r \<le> (1 + 1 / 2 ^ 53) * A"
    using br by (simp add: algebra_simps)
  show "0 < fdiv (of_nat a) (of_nat b)"
    and "(1 - 1 / 2 ^ 53) * of_nat a \<le> of_nat b * fdiv (of_nat a) (of_nat b)"
    and "of_nat b * fdiv (of_nat a) (of_nat b) \<le> (1 + 1 / 2 ^ 53) * of_nat a"
    using pos 1 2 by (simp_all add: fdiv_def r_def A_def B_def)
qed

lemma quotient_bounds:
  fixes a b n :: nat
  assumes "0 < a" "a < 2 ^ 53" "0 < b" "b < 2 ^ 50" "0 < n"
  shows "(1 - 1 / 2 ^ 53) * of_nat n
           \<le> fdiv (of_nat n) (fdiv (of_nat a) (of_nat b)) * fdiv (of_nat a) (of_nat b)"
    and "fdiv (of_nat n) (fdiv (of_nat a) (of_nat b)) * fdiv (of_nat a) (of_nat b)
           \<le> (1 + 1 / 2 ^ 53) * of_nat n"
    and "0 \<le> fdiv (of_nat n) (fdiv (of_nat a) (of_nat b))"
proof -
  define A :: rat where "A = of_nat a"
  define B :: rat where "B = of_nat b"
  define M :: rat where "M = of_nat n"
  define R where "R = fdiv (of_nat a) (of_nat b)"
  define t where "t = M / R"
  have R: "0 < R" "B * R \<le> (1 + 1 / 2 ^ 53) * A"
    using ratio_bounds [OF assms(1,3,4)] by (simp_all add: R_def A_def B_def)
  have "1 \<le> b" "a \<le> 2 ^ 53" "1 \<le> n"
    using assms by simp_all
  then have "(of_nat 1 :: rat) \<le> of_nat b" "(of_nat a :: rat) \<le> of_nat (2 ^ 53)"
    "(of_nat 1 :: rat) \<le> of_nat n"
    by (simp_all only: of_nat_le_iff)
  then have B: "1 \<le> B" and A: "A \<le> 2 ^ 53" and M: "1 \<le> M"
    by (simp_all add: A_def B_def M_def)
  have "R \<le> B * R"
    using B R(1) by simp
  then have "R \<le> (1 + 1 / 2 ^ 53) * A"
    using R(2) by linarith
  also have "\<dots> \<le> (1 + 1 / 2 ^ 53) * 2 ^ 53"
    using A by (intro mult_left_mono) auto
  also have "\<dots> \<le> 2 ^ 54"
    by simp
  finally have R54: "R \<le> 2 ^ 54" .
  have "1 / 2 ^ 54 \<le> 1 / R"
    using R(1) R54 by (simp add: field_simps)
  also have "1 / R \<le> t"
    unfolding t_def using M R(1) by (intro divide_right_mono) auto
  finally have t54: "1 / 2 ^ 54 \<le> t" .
  have "(1::rat) / 2 ^ 120 \<le> 1 / 2 ^ 54"
    by simp
  then have t120: "1 / 2 ^ 120 \<le> t"
    using t54 by linarith
  have lo: "(1 - 1 / 2 ^ 53) * t \<le> f64 t" and hi: "f64 t \<le> (1 + 1 / 2 ^ 53) * t"
    using f64_bounds_pos [OF t120] by simp_all
  have tR: "t * R = M"
    using R(1) by (simp add: t_def)
  have "(1 - 1 / 2 ^ 53) * t * R \<le> f64 t * R"
    using lo R(1) by (intro mult_right_mono) auto
  then have 1: "(1 - 1 / 2 ^ 53) * M \<le> f64 t * R"
    using tR by (simp add: mult.assoc)
  have "f64 t * R \<le> (1 + 1 / 2 ^ 53) * t * R"
    using hi R(1) by (intro mult_right_mono) auto
  then have 2: "f64 t * R \<le> (1 + 1 / 2 ^ 53) * M"
    using tR by (simp add: mult.assoc)
  have "0 \<le> t"
    using t54 by (simp add: order_trans [of 0 "1 / 2 ^ 54"])
  then have 3: "0 \<le> f64 t"
    by (rule f64_nonneg)
  show "(1 - 1 / 2 ^ 53) * of_nat n
           \<le> fdiv (of_nat n) (fdiv (of_nat a) (of_nat b)) * fdiv (of_nat a) (of_nat b)"
    and "fdiv (of_nat n) (fdiv (of_nat a) (of_nat b)) * fdiv (of_nat a) (of_nat b)
           \<le> (1 + 1 / 2 ^ 53) * of_nat n"
    and "0 \<le> fdiv (of_nat n) (fdiv (of_nat a) (of_nat b))"
    using 1 2 3 unfolding t_def M_def R_def fdiv_def by simp_all
qed

lemma length_bounds:
  fixes a b n :: nat
  assumes "0 < a" "a < 2 ^ 53" "0 < b" "0 < n" "n * b < 2 ^ 50"
  shows "2 * int a * js_round (fdiv (of_nat n) (fdiv (of_nat a) (of_nat b)))
           \<le> 2 * int n * int b + int a"
    and "2 * int n * int b
           \<le> 2 * int a * js_round (fdiv (of_nat n) (fdiv (of_nat a) (of_nat b))) + int a"
    and "0 \<le> js_round (fdiv (of_nat n) (fdiv (of_nat a) (of_nat b)))"
proof -
  define A :: rat where "A = of_nat a"
  define B :: rat where "B = of_nat b"
  define M :: rat where "M = of_nat n"
  define R where "R = fdiv (of_nat a) (of_nat b)"
  define Q where "Q = fdiv (of_nat n) R"
  define N where "N = js_round Q"
  define NN :: rat where "NN = of_int N"
  have b50: "b < 2 ^ 50"
  proof -
    have "b \<le> n * b" using assms(4) by simp
    then show ?thesis using assms(5) by linarith
  qed
  have R: "0 < R" "(1 - 1 / 2 ^ 53) * A \<le> B * R" "B * R \<le> (1 + 1 / 2 ^ 53) * A"
    using ratio_bounds [OF assms(1,3) b50] by (simp_all add: R_def A_def B_def)
  have Q: "(1 - 1 / 2 ^ 53) * M \<le> Q * R" "Q * R \<le> (1 + 1 / 2 ^ 53) * M" "0 \<le> Q"
    using quotient_bounds [OF assms(1,2,3) b50 assms(4)] by (simp_all add: Q_def R_def M_def)
  have AB: "0 < A" "0 < B" "0 < M"
    using assms by (simp_all add: A_def B_def M_def)
  have "n * b \<le> 2 ^ 50"
    using assms(5) by simp
  then have "(of_nat (n * b) :: rat) \<le> of_nat (2 ^ 50)"
    by (simp only: of_nat_le_iff)
  then have MB: "M * B \<le> 2 ^ 50"
    by (simp add: M_def B_def)
  have N1: "NN \<le> Q + 1 / 2" and N2: "Q - 1 / 2 < NN"
    unfolding NN_def N_def js_round_def by linarith+
  have N0: "0 \<le> N"
    unfolding N_def js_round_def using Q(3) by simp
  \<comment> \<open>products\<close>
  define AQ where "AQ = A * Q"
  define MB' where "MB' = M * B"
  define AN where "AN = A * NN"
  have "(1 - 1 / 2 ^ 53) * A * Q \<le> B * R * Q"
    using R(2) Q(3) by (intro mult_right_mono) auto
  moreover have "B * (Q * R) \<le> B * ((1 + 1 / 2 ^ 53) * M)"
    using Q(2) AB(2) by (intro mult_left_mono) auto
  ultimately have p1: "(1 - 1 / 2 ^ 53) * AQ \<le> (1 + 1 / 2 ^ 53) * MB'"
    by (simp add: AQ_def MB'_def algebra_simps)
  have "B * ((1 - 1 / 2 ^ 53) * M) \<le> B * (Q * R)"
    using Q(1) AB(2) by (intro mult_left_mono) auto
  moreover have "B * R * Q \<le> (1 + 1 / 2 ^ 53) * A * Q"
    using R(3) Q(3) by (intro mult_right_mono) auto
  ultimately have p2: "(1 - 1 / 2 ^ 53) * MB' \<le> (1 + 1 / 2 ^ 53) * AQ"
    by (simp add: AQ_def MB'_def algebra_simps)
  have "A * NN \<le> A * (Q + 1 / 2)"
    using N1 AB(1) by (intro mult_left_mono) auto
  then have p3: "AN \<le> AQ + A / 2"
    by (simp add: AN_def AQ_def algebra_simps)
  have "A * (Q - 1 / 2) < A * NN"
    using N2 AB(1) by (intro mult_strict_left_mono) auto
  then have p4: "AQ - A / 2 < AN"
    by (simp add: AN_def AQ_def algebra_simps)
  have mb: "MB' \<le> 2 ^ 50" "0 < MB'"
    using MB AB by (simp_all add: MB'_def)
  have u1: "2 * AN < 2 * MB' + A + 1"
    using p1 p3 mb by (simp add: field_simps) linarith?
  have u2: "2 * MB' < 2 * AN + A + 1"
    using p2 p4 mb by (simp add: field_simps) linarith?
  have i1: "(of_int (2 * int a * N) :: rat) < of_int (2 * int n * int b + int a + 1)"
    using u1 by (simp add: AN_def MB'_def A_def B_def M_def NN_def algebra_simps)
  have i2: "(of_int (2 * int n * int b) :: rat) < of_int (2 * int a * N + int a + 1)"
    using u2 by (simp add: AN_def MB'_def A_def B_def M_def NN_def algebra_simps)
  have "2 * int a * N < 2 * int n * int b + int a + 1"
    using i1 by (simp only: of_int_less_iff)
  moreover have "2 * int n * int b < 2 * int a * N + int a + 1"
    using i2 by (simp only: of_int_less_iff)
  ultimately show "2 * int a * js_round (fdiv (of_nat n) (fdiv (of_nat a) (of_nat b)))
           \<le> 2 * int n * int b + int a"
    and "2 * int n * int b
           \<le> 2 * int a * js_round (fdiv (of_nat n) (fdiv (of_nat a) (of_nat b))) + int a"
    and "0 \<le> js_round (fdiv (of_nat n) (fdiv (of_nat a) (of_nat b)))"
    using N0 by (simp_all add: N_def Q_def R_def)
qed

lemma index_bounds:
  fixes a b n i :: nat
  assumes "0 < a" "a < 2 ^ 53" "0 < b" "0 < n" "n * b < 2 ^ 50"
    and "int i < js_round (fdiv (of_nat n) (fdiv (of_nat a) (of_nat b)))"
  shows "0 \<le> \<lfloor>fmul (of_nat i) (fdiv (of_nat a) (of_nat b))\<rfloor>"
    and "\<lfloor>fmul (of_nat i) (fdiv (of_nat a) (of_nat b))\<rfloor> < int n"
proof -
  define A :: rat where "A = of_nat a"
  define B :: rat where "B = of_nat b"
  define M :: rat where "M = of_nat n"
  define I :: rat where "I = of_nat i"
  define R where "R = fdiv (of_nat a) (of_nat b)"
  define Q where "Q = fdiv (of_nat n) R"
  define P where "P = fmul I R"
  have b50: "b < 2 ^ 50"
  proof -
    have "b \<le> n * b" using assms(4) by simp
    then show ?thesis using assms(5) by linarith
  qed
  have R: "0 < R" "(1 - 1 / 2 ^ 53) * A \<le> B * R"
    using ratio_bounds [OF assms(1,3) b50] by (simp_all add: R_def A_def B_def)
  have Q: "Q * R \<le> (1 + 1 / 2 ^ 53) * M"
    using quotient_bounds [OF assms(1,2,3) b50 assms(4)] by (simp_all add: Q_def R_def M_def)
  have "1 \<le> a" "b \<le> 2 ^ 50" "n * b \<le> 2 ^ 50"
    using assms b50 by simp_all
  then have "(of_nat 1 :: rat) \<le> of_nat a" "(of_nat b :: rat) \<le> of_nat (2 ^ 50)"
    "(of_nat (n * b) :: rat) \<le> of_nat (2 ^ 50)"
    by (simp_all only: of_nat_le_iff)
  then have A: "1 \<le> A" and B50: "B \<le> 2 ^ 50" and MB: "M * B \<le> 2 ^ 50"
    by (simp_all add: A_def B_def M_def)
  have B: "0 < B" and M: "0 < M" and I: "0 \<le> I"
    using assms by (simp_all add: B_def M_def I_def)
  have IR0: "0 \<le> I * R"
    using I R(1) by simp
  have P0: "0 \<le> P"
    unfolding P_def fmul_def using IR0 by (rule f64_nonneg)
  have "of_int (int i + 1) \<le> Q + 1 / 2"
    using assms(6) unfolding js_round_def Q_def R_def by (simp only: le_floor_iff zless_iff_Suc_zadd) linarith
  then have IQ: "I \<le> Q - 1 / 2"
    by (simp add: I_def)
  have "I * R \<le> (Q - 1 / 2) * R"
    using IQ R(1) by (intro mult_right_mono) auto
  then have ir: "I * R \<le> (1 + 1 / 2 ^ 53) * M - R / 2"
    using Q by (simp add: algebra_simps)
  have PK: "P \<le> (1 + 1 / 2 ^ 53) * (I * R)"
  proof (cases "i = 0")
    case True
    then show ?thesis by (simp add: P_def I_def fmul_def)
  next
    case False
    then have "1 \<le> i" by simp
    then have "(of_nat 1 :: rat) \<le> of_nat i" by (simp only: of_nat_le_iff)
    then have "1 \<le> I" by (simp add: I_def)
    then have "R \<le> I * R" using R(1) by simp
    have "(1 - 1 / 2 ^ 53) * 1 \<le> (1 - 1 / 2 ^ 53) * A"
      using A by (intro mult_left_mono) auto
    then have "(1 - 1 / 2 ^ 53) \<le> B * R"
      using R(2) by simp
    also have "B * R \<le> 2 ^ 50 * R"
      using B50 R(1) by (intro mult_right_mono) auto
    finally have "(1 - 1 / 2 ^ 53) / 2 ^ 50 \<le> R"
      by (simp add: field_simps)
    moreover have "(1::rat) / 2 ^ 120 \<le> (1 - 1 / 2 ^ 53) / 2 ^ 50"
      by simp
    ultimately have "1 / 2 ^ 120 \<le> I * R"
      using \<open>R \<le> I * R\<close> by linarith
    then show ?thesis
      unfolding P_def fmul_def by (rule f64_bounds_pos(2))
  qed
  have "(1 + 1 / 2 ^ 53) * (I * R) \<le> (1 + 1 / 2 ^ 53) * ((1 + 1 / 2 ^ 53) * M - R / 2)"
    using ir by (intro mult_left_mono) auto
  then have PM: "P \<le> (1 + 1 / 2 ^ 53) * ((1 + 1 / 2 ^ 53) * M - R / 2)"
    using PK by linarith
  have "P < M"
  proof (rule ccontr)
    assume "\<not> P < M"
    then have "M \<le> (1 + 1 / 2 ^ 53) * ((1 + 1 / 2 ^ 53) * M - R / 2)"
      using PM by linarith
    then have "(1 + 1 / 2 ^ 53) * R / 2 \<le> ((1 + 1 / 2 ^ 53) * (1 + 1 / 2 ^ 53) - 1) * M"
      by (simp add: algebra_simps)
    then have "B * ((1 + 1 / 2 ^ 53) * R / 2) \<le> B * (((1 + 1 / 2 ^ 53) * (1 + 1 / 2 ^ 53) - 1) * M)"
      using B by (intro mult_left_mono) auto
    then have c: "(1 + 1 / 2 ^ 53) / 2 * (B * R) \<le> ((1 + 1 / 2 ^ 53) * (1 + 1 / 2 ^ 53) - 1) * (M * B)"
      by (simp add: algebra_simps)
    define BR where "BR = B * R"
    define MB' where "MB' = M * B"
    have "(1 - 1 / 2 ^ 53) * 1 \<le> (1 - 1 / 2 ^ 53) * A"
      using A by (intro mult_left_mono) auto
    then have "1 - 1 / 2 ^ 53 \<le> BR"
      using R(2) by (simp add: BR_def)
    moreover have "MB' \<le> 2 ^ 50"
      using MB by (simp add: MB'_def)
    moreover have "(1 + 1 / 2 ^ 53) / 2 * BR \<le> ((1 + 1 / 2 ^ 53) * (1 + 1 / 2 ^ 53) - 1) * MB'"
      using c by (simp add: BR_def MB'_def)
    ultimately show False
      by (simp add: field_simps) linarith?
  qed
  then have "P < of_int (int n)"
    by (simp add: M_def)
  then have "\<lfloor>P\<rfloor> < int n"
    by (simp only: floor_less_iff)
  moreover have "0 \<le> \<lfloor>P\<rfloor>"
    using P0 by simp
  ultimately show "0 \<le> \<lfloor>fmul (of_nat i) (fdiv (of_nat a) (of_nat b))\<rfloor>"
    and "\<lfloor>fmul (of_nat i) (fdiv (of_nat a) (of_nat b))\<rfloor> < int n"
    by (simp_all add: P_def I_def R_def)
qed

section \<open>One interpolated sample\<close>

lemma interp_core:
  assumes M: "f32 M = M" and g: "0 \<le> g" "\<bar>g - (1 - f)\<bar> \<le> 1 / 2 ^ 53" and f: "0 \<le> f"
  shows "f32 (f64 (f64 (M * g) + f64 (M * f))) \<le> M"
proof -
  define Mg where "Mg = M * g"
  define Mf where "Mf = M * f"
  define P where "P = f64 Mg"
  define Q where "Q = f64 Mf"
  define T where "T = f64 (P + Q)"
  have eP: "\<bar>P - Mg\<bar> \<le> \<bar>Mg\<bar> / 2 ^ 53 + 1 / 2 ^ 200"
    and eQ: "\<bar>Q - Mf\<bar> \<le> \<bar>Mf\<bar> / 2 ^ 53 + 1 / 2 ^ 200"
    and eT: "\<bar>T - (P + Q)\<bar> \<le> \<bar>P + Q\<bar> / 2 ^ 53 + 1 / 2 ^ 200"
    unfolding P_def Q_def T_def by (rule f64_abs_error)+
  have gf: "1 - 1 / 2 ^ 53 \<le> g + f" "g + f \<le> 1 + 1 / 2 ^ 53"
    using g(2) by linarith+
  have W: "Mg + Mf = M * (g + f)"
    by (simp add: Mg_def Mf_def algebra_simps)
  consider "M = 0" | "0 < M" | "M < 0" by linarith
  then have "T \<le> M + \<bar>M\<bar> / 2 ^ 26"
  proof cases
    case 1
    then show ?thesis
      by (simp add: T_def P_def Q_def Mg_def Mf_def)
  next
    case 2
    have m: "1 / 2 ^ 149 \<le> M"
      using f32_least [OF M] 2 by simp
    have "0 \<le> Mg" "0 \<le> Mf"
      using 2 g(1) f by (simp_all add: Mg_def Mf_def)
    then have s: "\<bar>Mg\<bar> = Mg" "\<bar>Mf\<bar> = Mf" "0 \<le> P" "0 \<le> Q"
      by (simp_all add: P_def Q_def f64_nonneg)
    then have s2: "\<bar>P + Q\<bar> = P + Q"
      by simp
    have "M * (g + f) \<le> M * (1 + 1 / 2 ^ 53)"
      using gf(2) 2 by (intro mult_left_mono) auto
    then have w: "Mg + Mf \<le> M + M / 2 ^ 53"
      unfolding W by (simp add: algebra_simps)
    have "P \<le> Mg + Mg / 2 ^ 53 + 1 / 2 ^ 200" "Q \<le> Mf + Mf / 2 ^ 53 + 1 / 2 ^ 200"
      "T \<le> (P + Q) + (P + Q) / 2 ^ 53 + 1 / 2 ^ 200"
      using eP eQ eT unfolding s s2 by linarith+
    then have "T \<le> M + M / 2 ^ 26"
      using w m by (simp add: field_simps)
    then show ?thesis
      using 2 by simp
  next
    case 3
    have m: "M \<le> - (1 / 2 ^ 149)"
      using f32_least [OF M] 3 by simp
    have "Mg \<le> 0" "Mf \<le> 0"
      using 3 g(1) f by (simp_all add: Mg_def Mf_def mult_nonpos_nonneg)
    then have s: "\<bar>Mg\<bar> = - Mg" "\<bar>Mf\<bar> = - Mf" "P \<le> 0" "Q \<le> 0"
      by (simp_all add: P_def Q_def f64_nonpos)
    then have s2: "\<bar>P + Q\<bar> = - (P + Q)"
      by simp
    have "M * (g + f) \<le> M * (1 - 1 / 2 ^ 53)"
      using gf(1) 3 by (intro mult_left_mono_neg) auto
    then have w: "Mg + Mf \<le> M - M / 2 ^ 53"
      unfolding W by (simp add: algebra_simps)
    have "P \<le> Mg - Mg / 2 ^ 53 + 1 / 2 ^ 200" "Q \<le> Mf - Mf / 2 ^ 53 + 1 / 2 ^ 200"
      "T \<le> (P + Q) - (P + Q) / 2 ^ 53 + 1 / 2 ^ 200"
      using eP eQ eT unfolding s s2 by linarith+
    then have "T \<le> M - M / 2 ^ 26"
      using w m by (simp add: field_simps)
    then show ?thesis
      using 3 by simp
  qed
  moreover have "M \<le> M + \<bar>M\<bar> / 2 ^ 26"
    by simp
  ultimately have "f32 T \<le> f32 (M + \<bar>M\<bar> / 2 ^ 26)"
    by (intro f32_mono)
  also have "f32 (M + \<bar>M\<bar> / 2 ^ 26) = M"
    by (rule f32_near [OF M]) simp_all
  finally show ?thesis
    by (simp add: T_def P_def Q_def Mg_def Mf_def)
qed

lemma interp_upper:
  assumes M: "f32 M = M" and ab: "a \<le> M" "b \<le> M" and f: "0 \<le> f" "f \<le> 1"
  shows "f32 (fadd (fmul a (fsub 1 f)) (fmul b f)) \<le> M"
proof -
  define g where "g = fsub 1 f"
  have g0: "0 \<le> g"
    unfolding g_def fsub_def using f(2) by (intro f64_nonneg) simp
  have "\<bar>1 - f\<bar> \<le> 1"
    using f by simp
  then have ge: "\<bar>g - (1 - f)\<bar> \<le> 1 / 2 ^ 53"
    unfolding g_def fsub_def by (rule f64_error_unit)
  have "a * g \<le> M * g" "b * f \<le> M * f"
    using ab g0 f(1) by (simp_all add: mult_right_mono)
  then have "f64 (a * g) + f64 (b * f) \<le> f64 (M * g) + f64 (M * f)"
    by (intro add_mono f64_mono)
  then have "f32 (f64 (f64 (a * g) + f64 (b * f))) \<le> f32 (f64 (f64 (M * g) + f64 (M * f)))"
    by (intro f32_mono f64_mono)
  also have "\<dots> \<le> M"
    by (rule interp_core [OF M g0 ge f(1)])
  finally show ?thesis
    by (simp add: fadd_def fmul_def g_def)
qed

lemma interp_lower:
  assumes m: "f32 m = m" and ab: "m \<le> a" "m \<le> b" and f: "0 \<le> f" "f \<le> 1"
  shows "m \<le> f32 (fadd (fmul a (fsub 1 f)) (fmul b f))"
proof -
  have "f32 (- m) = - m"
    using m by (simp add: f32_minus)
  then have "f32 (fadd (fmul (- a) (fsub 1 f)) (fmul (- b) f)) \<le> - m"
    using ab f by (intro interp_upper) simp_all
  moreover have "fadd (fmul (- a) (fsub 1 f)) (fmul (- b) f)
                 = - fadd (fmul a (fsub 1 f)) (fmul b f)"
    using f64_minus [of "f64 (a * fsub 1 f) + f64 (b * f)"]
    by (simp add: fadd_def fmul_def f64_minus)
  ultimately show ?thesis
    by (simp add: f32_minus)
qed

section \<open>The loop of the resampler\<close>

lemma resample_loop_length:
  "length (resample_loop xs ratio n i result) = length result"
  by (induction xs ratio n i result rule: resample_loop.induct)
     (subst resample_loop.simps, simp)

lemma resample_loop_nth:
  "length result = n \<Longrightarrow> k < n \<Longrightarrow>
   resample_loop xs ratio n i result ! k =
     (if i \<le> k then resample_at xs ratio k else result ! k)"
proof (induction xs ratio n i result rule: resample_loop.induct)
  case (1 xs ratio n i result)
  show ?case
  proof (cases "i < n")
    case True
    let ?r = "result[i := resample_at xs ratio i]"
    have len: "length ?r = n"
      using "1.prems" by simp
    have "resample_loop xs ratio n i result ! k = resample_loop xs ratio n (Suc i) ?r ! k"
      using True by (subst resample_loop.simps) simp
    also have "\<dots> = (if Suc i \<le> k then resample_at xs ratio k else ?r ! k)"
      by (rule "1.IH" [OF True len "1.prems"(2)])
    also have "\<dots> = (if i \<le> k then resample_at xs ratio k else result ! k)"
    proof (cases "i = k")
      case True
      then show ?thesis using "1.prems" by simp
    next
      case False
      then show ?thesis using "1.prems" by (simp add: le_less Suc_le_eq)
    qed
    finally show ?thesis .
  next
    case False
    then show ?thesis
      using "1.prems" by (subst resample_loop.simps) simp
  qed
qed

lemma resampleAudio_nth:
  assumes "inputRate \<noteq> outputRate"
    and "resampleAudio samples inputRate outputRate = Inr result"
    and "i < length result"
  shows "result ! i = resample_at samples (fdiv inputRate outputRate) i"
  using assms
  by (auto simp: resampleAudio_def Let_def resample_loop_length resample_loop_nth
           split: if_splits)

lemma f64_one: "f64 1 = 1"
  by code_simp

lemma resampleAudio_total:
  fixes a b :: nat
  assumes "0 < a" "a < 2 ^ 53" "0 < b" "a \<noteq> b" "x \<noteq> []" "length x * b < 2 ^ 50"
  shows "resampleAudio x (of_nat a) (of_nat b)
         = Inr (resample_loop x (fdiv (of_nat a) (of_nat b))
                  (nat (js_round (fdiv (of_nat (length x)) (fdiv (of_nat a) (of_nat b))))) 0
                  (replicate (nat (js_round (fdiv (of_nat (length x)) (fdiv (of_nat a) (of_nat b)))))
                     (Val 0)))"
proof -
  define N where "N = js_round (fdiv (of_nat (length x)) (fdiv (of_nat a) (of_nat b)))"
  have n: "0 < length x"
    using assms(5) by simp
  have b50: "b < 2 ^ 50"
  proof -
    have "1 \<le> length x" using n by linarith
    then have "1 * b \<le> length x * b" by (rule mult_le_mono1)
    then show ?thesis using assms(6) by linarith
  qed
  have r: "fdiv (of_nat a) (of_nat b) \<noteq> 0"
    using ratio_bounds(1) [OF assms(1,3) b50] by simp
  have N0: "0 \<le> N" and N1: "2 * int a * N \<le> 2 * int (length x) * int b + int a"
    using length_bounds [OF assms(1,2,3) n assms(6)] by (simp_all add: N_def)
  define K where "K = int (length x) * int b"
  have K50: "K < 2 ^ 50"
    unfolding K_def using assms(6)
    by (metis of_nat_less_iff of_nat_mult of_nat_numeral of_nat_power)
  have K0: "0 \<le> K"
    by (simp add: K_def)
  have a1: "1 \<le> int a"
    using assms(1) by simp
  have N1': "2 * (int a * N) \<le> 2 * K + int a"
    using N1 by (simp add: K_def mult.assoc)
  have "N \<le> K"
  proof (rule ccontr)
    assume "\<not> N \<le> K"
    then have "K + 1 \<le> N" by simp
    then have "int a * (K + 1) \<le> int a * N"
      using a1 by (intro mult_left_mono) auto
    moreover have "1 * K \<le> int a * K"
      using a1 K0 by (intro mult_right_mono) auto
    ultimately have "K + int a \<le> int a * N"
      by (simp add: algebra_simps)
    then show False
      using N1' a1 by linarith
  qed
  then have "N < 2 ^ 53"
    using K50 by simp
  then show ?thesis
    using assms(3,4) r N0 by (simp add: resampleAudio_def Let_def N_def)
qed

lemma resampleAudio_empty: "resampleAudio [] r_in r_out = Inr []"
proof -
  have "\<lfloor>(1::rat) / 2\<rfloor> = 0"
    by (rule floor_unique) simp_all
  then have "js_round (fdiv 0 (fdiv r_in r_out)) = 0"
    by (simp add: js_round_def fdiv_def)
  moreover have "resample_loop [] (fdiv r_in r_out) 0 0 [] = []"
    by (subst resample_loop.simps) simp
  ultimately show ?thesis
    by (simp add: resampleAudio_def Let_def)
qed

lemma fraction_unit:
  "0 \<le> fsub position (of_int \<lfloor>position\<rfloor>)" "fsub position (of_int \<lfloor>position\<rfloor>) \<le> 1"
proof -
  have d: "0 \<le> position - of_int \<lfloor>position\<rfloor>" "position - of_int \<lfloor>position\<rfloor> \<le> 1"
    using floor_correct [of position] by simp_all
  show "0 \<le> fsub position (of_int \<lfloor>position\<rfloor>)"
    unfolding fsub_def using d(1) by (rule f64_nonneg)
  have "f64 (position - of_int \<lfloor>position\<rfloor>) \<le> f64 1"
    using d(2) by (rule f64_mono)
  then show "fsub position (of_int \<lfloor>position\<rfloor>) \<le> 1"
    by (simp add: fsub_def f64_one)
qed

lemma resample_at_bounded:
  assumes x: "\<forall>s\<in>set x. \<exists>v. s = Val v \<and> f32 v = v \<and> lo \<le> v \<and> v \<le> hi"
    and lo: "f32 lo = lo" and hi: "f32 hi = hi"
    and i0: "0 \<le> \<lfloor>fmul (of_nat i) ratio\<rfloor>" and i1: "\<lfloor>fmul (of_nat i) ratio\<rfloor> < int (length x)"
  shows "\<exists>v. resample_at x ratio i = Val v \<and> lo \<le> v \<and> v \<le> hi"
proof -
  define position where "position = fmul (of_nat i) ratio"
  define index where "index = \<lfloor>position\<rfloor>"
  define fraction where "fraction = fsub position (of_int index)"
  have f: "0 \<le> fraction" "fraction \<le> 1"
    using fraction_unit [of position] by (simp_all add: fraction_def index_def)
  have idx: "0 \<le> index" "index < int (length x)"
    using i0 i1 by (simp_all add: index_def position_def)
  then have "x ! nat index \<in> set x"
    by simp
  then obtain va where va: "x ! nat index = Val va" "f32 va = va" "lo \<le> va" "va \<le> hi"
    using x by blast
  have r0: "rd x index = Val va"
    using idx va(1) by (simp add: rd_def)
  show ?thesis
  proof (cases "index + 1 < int (length x)")
    case True
    then have "x ! nat (index + 1) \<in> set x"
      using idx by simp
    then obtain vb where vb: "x ! nat (index + 1) = Val vb" "lo \<le> vb" "vb \<le> hi"
      using x by blast
    have r1: "rd x (index + 1) = Val vb"
      using idx True vb(1) by (simp add: rd_def)
    define v where "v = f32 (fadd (fmul va (fsub 1 fraction)) (fmul vb fraction))"
    have "resample_at x ratio i = Val v"
      using True r0 r1
      by (simp add: resample_at_def Let_def v_def flip: position_def index_def fraction_def)
    moreover have "v \<le> hi"
      unfolding v_def by (rule interp_upper [OF hi va(4) vb(3) f])
    moreover have "lo \<le> v"
      unfolding v_def by (rule interp_lower [OF lo va(3) vb(2) f])
    ultimately show ?thesis by blast
  next
    case False
    then have "resample_at x ratio i = Val va"
      using r0 va(2)
      by (simp add: resample_at_def Let_def flip: position_def index_def fraction_def)
    then show ?thesis
      using va by blast
  qed
qed

lemma resampleAudio_result:
  fixes a b :: nat
  assumes "0 < a" "a < 2 ^ 53" "0 < b" "a \<noteq> b" "x \<noteq> []" "length x * b < 2 ^ 50"
  shows "\<exists>y. resampleAudio x (of_nat a) (of_nat b) = Inr y
           \<and> int (length y) = js_round (fdiv (of_nat (length x)) (fdiv (of_nat a) (of_nat b)))
           \<and> (\<forall>i<length y. y ! i = resample_at x (fdiv (of_nat a) (of_nat b)) i)"
proof -
  define N where "N = js_round (fdiv (of_nat (length x)) (fdiv (of_nat a) (of_nat b)))"
  define y where "y = resample_loop x (fdiv (of_nat a) (of_nat b)) (nat N) 0
                        (replicate (nat N) (Val 0))"
  have n: "0 < length x"
    using assms(5) by simp
  have r: "resampleAudio x (of_nat a) (of_nat b) = Inr y"
    unfolding y_def N_def by (rule resampleAudio_total [OF assms])
  have N0: "0 \<le> N"
    using length_bounds(3) [OF assms(1,2,3) n assms(6)] by (simp add: N_def)
  have len: "length y = nat N"
    by (simp add: y_def resample_loop_length)
  have "\<forall>i<length y. y ! i = resample_at x (fdiv (of_nat a) (of_nat b)) i"
    using len by (simp add: y_def resample_loop_nth)
  then show ?thesis
    using r len N0 by (auto simp: N_def)
qed

section \<open>The resampler: values\<close>

text \<open>
  Claim C5. With \<open>inputRate \<noteq> outputRate\<close>, every element \<open>i\<close> of the sequence that
  \<^verbatim>\<open>resampleAudio\<close> returns is computed from \<open>ratio = inputRate / outputRate\<close>,
  \<open>position = i * ratio\<close>, \<open>index = floor position\<close> and \<open>fraction = position - index\<close>: it is
  \<open>samples[index] * (1 - fraction) + samples[index + 1] * fraction\<close> when
  \<open>index + 1 < len samples\<close> and \<open>samples[index]\<close> otherwise, the operators being those of
  the program's numbers and the value being stored as an element of a \<^verbatim>\<open>Float32Array\<close>.
  Resampling \<open>[0, 1, 0, -1]\<close> from rate 4 to rate 2 returns exactly \<open>[0, 0]\<close>.
\<close>

theorem resampleAudio_interpolates:
  "(inputRate \<noteq> outputRate \<and> resampleAudio samples inputRate outputRate = Inr result
      \<and> i < length result \<longrightarrow>
    result ! i =
      (let ratio = fdiv inputRate outputRate;
           position = fmul (of_nat i) ratio;
           index = \<lfloor>position\<rfloor>;
           fraction = fsub position (of_int index)
       in if index + 1 < int (length samples)
          then store (sadd (smul (rd samples index) (fsub 1 fraction))
                           (smul (rd samples (index + 1)) fraction))
          else store (rd samples index)))
   \<and> resampleAudio [Val 0, Val 1, Val 0, Val (- 1)] 4 2 = Inr [Val 0, Val 0]"
proof
  show "inputRate \<noteq> outputRate \<and> resampleAudio samples inputRate outputRate = Inr result
      \<and> i < length result \<longrightarrow>
    result ! i =
      (let ratio = fdiv inputRate outputRate;
           position = fmul (of_nat i) ratio;
           index = \<lfloor>position\<rfloor>;
           fraction = fsub position (of_int index)
       in if index + 1 < int (length samples)
          then store (sadd (smul (rd samples index) (fsub 1 fraction))
                           (smul (rd samples (index + 1)) fraction))
          else store (rd samples index))"
    using resampleAudio_nth [of inputRate outputRate samples result i]
    by (simp add: resample_at_def Let_def)
  show "resampleAudio [Val 0, Val 1, Val 0, Val (- 1)] 4 2 = Inr [Val 0, Val 0]"
    by code_simp
qed

theorem resampleAudio_interpolates_witness:
  "(1::rat) \<noteq> 3
   \<and> resampleAudio [Val 0, Val 1] 1 3
       = Inr [Val 0, Val (11184811 / 33554432), Val (11184811 / 16777216), Val 1, Val 1, Val 1]
   \<and> (1::nat) < length [Val 0, Val (11184811 / 33554432), Val (11184811 / 16777216),
                        Val 1, Val 1, Val 1]
   \<and> [Val 0, Val (11184811 / 33554432), Val (11184811 / 16777216), Val 1, Val 1, Val 1] ! 1
       = (let ratio = fdiv 1 3;
              position = fmul (of_nat 1) ratio;
              index = \<lfloor>position\<rfloor>;
              fraction = fsub position (of_int index)
          in if index + 1 < int (length [Val 0, Val 1])
             then store (sadd (smul (rd [Val 0, Val 1] index) (fsub 1 fraction))
                              (smul (rd [Val 0, Val 1] (index + 1)) fraction))
             else store (rd [Val 0, Val 1] index))"
proof -
  have r: "resampleAudio [Val 0, Val 1] 1 3
       = Inr [Val 0, Val (11184811 / 33554432), Val (11184811 / 16777216), Val 1, Val 1, Val 1]"
    by code_simp
  have n: "(1::rat) \<noteq> 3"
    by simp
  have l: "(1::nat) < length [Val 0, Val (11184811 / 33554432), Val (11184811 / 16777216),
                             Val 1, Val 1, Val 1]"
    by simp
  from resampleAudio_interpolates [of 1 3 "[Val 0, Val 1]"
       "[Val 0, Val (11184811 / 33554432), Val (11184811 / 16777216), Val 1, Val 1, Val 1]" 1]
    r n l
  show ?thesis
    by blast
qed

text \<open>
  Claim C7. With equal rates \<^verbatim>\<open>resampleAudio\<close> returns its input, element for element.
\<close>

theorem resampleAudio_identity:
  "resampleAudio x r r = Inr x"
  by (simp add: resampleAudio_def)

section \<open>The resampler: length\<close>

text \<open>
  Claim C6, as stated, fails: nine samples resampled from rate 18 to rate 7 give three
  samples, where \<open>round (9 * 7 / 18) = round 3.5\<close> is four. The quotient \<open>18 / 7\<close> is
  rounded up to a binary64 value, and \<open>9\<close> divided by it falls below \<open>3.5\<close>.
\<close>

theorem resample_length_counterexample:
  "resampleAudio (replicate 9 (Val 0)) 18 7 = Inr [Val 0, Val 0, Val 0]
   \<and> spec_length (length (replicate 9 (Val 0 :: sample))) 18 7 = 4"
  by code_simp

text \<open>
  The same at audio rates: 240 samples from 48000 Hz to 44100 Hz give 220 samples, the
  formula 221.
\<close>

lemma resample_length_48000_44100:
  "map_sum id length (resampleAudio (replicate 240 (Val 0)) 48000 44100) = Inr 220
   \<and> spec_length 240 48000 44100 = 221"
proof -
  have n: "js_round (fdiv 240 (fdiv 48000 44100)) = 220"
    by code_simp
  have r: "fdiv 48000 44100 \<noteq> 0"
    by code_simp
  have s: "spec_length 240 48000 44100 = 221"
    by code_simp
  show ?thesis
    using n r s by (simp add: resampleAudio_def Let_def resample_loop_length)
qed

text \<open>
  Claim C6, amended. For positive integer rates, \<open>r_in\<close> below \<open>2 ^ 53\<close> and
  \<open>len x * r_out\<close> below \<open>2 ^ 50\<close>, \<^verbatim>\<open>resampleAudio\<close> returns a sequence whose length is
  \<open>round (len x * r_out / r_in)\<close>, a tie going up, with one exception: where
  \<open>len x * r_out / r_in\<close> lies exactly halfway between two integers and the binary64
  quotient \<^verbatim>\<open>audioData.length / ratio\<close> that the program rounds has fallen below it, the
  length is the lower of the two integers. The exception does not occur where the ratio
  \<open>r_in / r_out\<close> is a binary64 value, as it is when \<open>r_in\<close> is a whole multiple of \<open>r_out\<close>
  (lemma \<open>fdiv_exact_multiple\<close>): there the length is \<open>round (len x * r_out / r_in)\<close>, ties
  included. An empty input gives an empty sequence at any pair of rates.
\<close>

theorem resample_length_nearest:
  fixes a b :: nat
  shows "(0 < a \<and> a < 2 ^ 53 \<and> 0 < b \<and> length x * b < 2 ^ 50 \<longrightarrow>
          (\<exists>y. resampleAudio x (of_nat a) (of_nat b) = Inr y
             \<and> int (length y) =
                 (if of_nat (length x) * of_nat b / of_nat a + 1 / 2
                       = (of_int (spec_length (length x) (of_nat a) (of_nat b)) :: rat)
                     \<and> fdiv (of_nat (length x)) (fdiv (of_nat a) (of_nat b))
                         < of_nat (length x) * of_nat b / of_nat a
                  then spec_length (length x) (of_nat a) (of_nat b) - 1
                  else spec_length (length x) (of_nat a) (of_nat b))
             \<and> (fdiv (of_nat a) (of_nat b) = of_nat a / of_nat b \<longrightarrow>
                  int (length y) = spec_length (length x) (of_nat a) (of_nat b))))
         \<and> resampleAudio [] r_in r_out = Inr []"
proof (intro conjI impI)
  show "resampleAudio [] r_in r_out = Inr []"
    by (rule resampleAudio_empty)
next
  assume h: "0 < a \<and> a < 2 ^ 53 \<and> 0 < b \<and> length x * b < 2 ^ 50"
  define t :: rat where "t = of_nat (length x) * of_nat b / of_nat a"
  define S where "S = spec_length (length x) (of_nat a) (of_nat b)"
  define q where "q = fdiv (of_nat (length x)) (fdiv (of_nat a) (of_nat b))"
  have S: "S = \<lfloor>t + 1 / 2\<rfloor>"
    by (simp add: S_def spec_length_def t_def)
  have half: "\<lfloor>(1::rat) / 2\<rfloor> = 0"
    by (rule floor_unique) simp_all
  have A: "0 < (of_nat a :: rat)"
    using h by simp
  have A1: "1 \<le> (of_nat a :: rat)"
    using h by simp
  have t0: "0 \<le> t"
    by (simp add: t_def)
  have "(of_nat (length x * b) :: rat) < of_nat (2 ^ 50)"
    using h by (simp only: of_nat_less_iff)
  then have nb: "of_nat (length x) * of_nat b < (2::rat) ^ 50"
    by simp
  have "of_nat (length x) * of_nat b / of_nat a
          \<le> of_nat (length x) * of_nat b / (1::rat)"
    using A1 by (intro divide_left_mono) simp_all
  then have "t \<le> of_nat (length x) * of_nat b"
    by (simp add: t_def)
  then have t50: "t < 2 ^ 50"
    using nb by linarith
  \<comment> \<open>where the ratio of the rates is a binary64 value, a tie is computed exactly\<close>
  have exact: "q = t" if r: "fdiv (of_nat a) (of_nat b) = of_nat a / of_nat b"
    and tie: "t + 1 / 2 = of_int S"
  proof -
    define m where "m = 2 * S - 1"
    have tm: "t = of_int m / 2"
      using tie by (simp add: m_def field_simps)
    have "0 \<le> (of_int m :: rat)"
      using t0 unfolding tm by simp
    then have "0 \<le> m"
      by (simp only: of_int_0_le_iff)
    then have m0: "0 < m"
      unfolding m_def by presburger
    have "(of_int m :: rat) < of_int (2 ^ 53)"
      using t50 unfolding tm by simp
    then have m1: "m < 2 ^ 53"
      by (simp only: of_int_less_iff)
    have "q = fdiv (of_nat (length x)) (of_nat a / of_nat b)"
      by (simp only: q_def r)
    also have "\<dots> = f64 (of_nat (length x) / (of_nat a / of_nat b))"
      by (simp only: fdiv_def)
    also have "of_nat (length x) / ((of_nat a :: rat) / of_nat b) = t"
      by (simp add: t_def)
    finally have "q = f64 t" .
    then show ?thesis
      unfolding tm using f64_half_integer [OF m0 m1] by simp
  qed
  have "\<exists>y. resampleAudio x (of_nat a) (of_nat b) = Inr y
            \<and> int (length y) = (if t + 1 / 2 = of_int S \<and> q < t then S - 1 else S)"
  proof (cases "x = []")
    case True
    have "t = 0"
      using True by (simp add: t_def)
    then have "S = 0" "t + 1 / 2 \<noteq> of_int S"
      using half by (simp_all add: S)
    then show ?thesis
      using True resampleAudio_empty [of "of_nat a" "of_nat b"] by simp
  next
    case nonempty: False
    show ?thesis
    proof (cases "a = b")
      case True
      have tn: "t = of_nat (length x)"
        using h True by (simp add: t_def)
      then have "S = int (length x)"
        unfolding S using half by (simp add: floor_add_int [symmetric] del: floor_add_int)
      moreover have "t + 1 / 2 \<noteq> of_int S"
        using calculation tn by simp
      ultimately show ?thesis
        using True by (simp add: resampleAudio_def)
    next
      case False
      define N where "N = js_round q"
      have n: "0 < length x"
        using nonempty by simp
      obtain y where y: "resampleAudio x (of_nat a) (of_nat b) = Inr y" "int (length y) = N"
        using resampleAudio_result [of a b x] h False nonempty unfolding N_def q_def by blast
      have b1: "2 * int a * N \<le> 2 * int (length x) * int b + int a"
        and b2: "2 * int (length x) * int b \<le> 2 * int a * N + int a"
        using length_bounds(1,2) [of a b "length x"] h n by (simp_all add: N_def q_def)
      have "(of_int (2 * int a * N) :: rat) \<le> of_int (2 * int (length x) * int b + int a)"
        using b1 by (simp only: of_int_le_iff)
      then have "2 * of_nat a * (of_int N :: rat) \<le> 2 * (of_nat (length x) * of_nat b) + of_nat a"
        by simp
      then have u: "of_int N \<le> t + 1 / 2"
        using A by (simp add: t_def field_simps)
      have "(of_int (2 * int (length x) * int b) :: rat) \<le> of_int (2 * int a * N + int a)"
        using b2 by (simp only: of_int_le_iff)
      then have "2 * (of_nat (length x) * of_nat b) \<le> 2 * of_nat a * (of_int N :: rat) + of_nat a"
        by simp
      then have l: "t - 1 / 2 \<le> of_int N"
        using A by (simp add: t_def field_simps)
      have NS: "N \<le> S"
        unfolding S using u by (simp add: le_floor_iff)
      have Sq: "of_int S \<le> t + 1 / 2"
        unfolding S by simp
      then have "(of_int S :: rat) - 1 \<le> of_int N"
        using l by linarith
      then have "(of_int (S - 1) :: rat) \<le> of_int N"
        by simp
      then have SN: "S - 1 \<le> N"
        by (simp only: of_int_le_iff)
      have "N = (if t + 1 / 2 = of_int S \<and> q < t then S - 1 else S)"
      proof (cases "t + 1 / 2 = of_int S")
        case tie: True
        show ?thesis
        proof (cases "q < t")
          case True
          then have "q + 1 / 2 < of_int S"
            using tie by linarith
          then have "N < S"
            unfolding N_def js_round_def by (simp only: floor_less_iff)
          then show ?thesis
            using SN tie True by simp
        next
          case False
          then have "of_int S \<le> q + 1 / 2"
            using tie by linarith
          then have "S \<le> N"
            unfolding N_def js_round_def by (simp only: le_floor_iff)
          then show ?thesis
            using NS tie False by simp
        qed
      next
        case False
        have "N = S"
        proof (rule ccontr)
          assume "N \<noteq> S"
          then have e: "N = S - 1"
            using NS SN by linarith
          then have "t - 1 / 2 \<le> of_int S - 1"
            using l by simp
          then have "t + 1 / 2 = of_int S"
            using Sq by linarith
          then show False
            using False by simp
        qed
        then show ?thesis
          using False by simp
      qed
      then show ?thesis
        using y by simp
    qed
  qed
  then obtain y where y: "resampleAudio x (of_nat a) (of_nat b) = Inr y"
    "int (length y) = (if t + 1 / 2 = of_int S \<and> q < t then S - 1 else S)"
    by blast
  have "int (length y) = S" if "fdiv (of_nat a) (of_nat b) = of_nat a / of_nat b"
    using exact [OF that] y(2) by (cases "t + 1 / 2 = of_int S") simp_all
  then show "\<exists>y. resampleAudio x (of_nat a) (of_nat b) = Inr y
             \<and> int (length y) =
                 (if of_nat (length x) * of_nat b / of_nat a + 1 / 2
                       = (of_int (spec_length (length x) (of_nat a) (of_nat b)) :: rat)
                     \<and> fdiv (of_nat (length x)) (fdiv (of_nat a) (of_nat b))
                         < of_nat (length x) * of_nat b / of_nat a
                  then spec_length (length x) (of_nat a) (of_nat b) - 1
                  else spec_length (length x) (of_nat a) (of_nat b))
             \<and> (fdiv (of_nat a) (of_nat b) = of_nat a / of_nat b \<longrightarrow>
                  int (length y) = spec_length (length x) (of_nat a) (of_nat b))"
    using y unfolding S_def t_def q_def by blast
qed

theorem resample_length_nearest_witness:
  "(\<exists>y. resampleAudio (replicate 9 (Val 0)) 18 7 = Inr y \<and> int (length y) = 3)
   \<and> spec_length 9 18 7 = 4
   \<and> fdiv 9 (fdiv 18 7) < 9 * 7 / 18
   \<and> (\<exists>y. resampleAudio [Val 1, Val 2, Val 3] 32000 16000 = Inr y \<and> int (length y) = 2)
   \<and> spec_length 3 32000 16000 = 2
   \<and> fdiv 32000 16000 = 32000 / 16000"
proof -
  let ?x = "replicate 9 (Val 0)"
  let ?z = "[Val 1, Val 2, Val 3]"
  have l1: "length ?x = 9" and l2: "length ?z = 3"
    by simp_all
  have s1n: "spec_length 9 18 7 = 4"
    by code_simp
  have q1n: "fdiv 9 (fdiv 18 7) < 9 * 7 / 18"
    by code_simp
  have s2n: "spec_length 3 32000 16000 = 2"
    by code_simp
  have r2n: "fdiv 32000 16000 = 32000 / 16000"
    by code_simp
  have s1: "spec_length (length ?x) (of_nat 18) (of_nat 7) = 4"
    unfolding l1 using s1n by simp
  have t1: "of_nat (length ?x) * of_nat 7 / of_nat 18 + 1 / 2
              = (of_int (spec_length (length ?x) (of_nat 18) (of_nat 7)) :: rat)"
    unfolding l1 using s1n by simp
  have q1: "fdiv (of_nat (length ?x)) (fdiv (of_nat 18) (of_nat 7))
              < of_nat (length ?x) * of_nat 7 / of_nat 18"
    unfolding l1 using q1n by simp
  have s2: "spec_length (length ?z) (of_nat 32000) (of_nat 16000) = 2"
    unfolding l2 using s2n by simp
  have r2: "fdiv (of_nat 32000) (of_nat 16000) = of_nat 32000 / of_nat 16000"
    using r2n by simp
  have h1: "(0::nat) < 18 \<and> (18::nat) < 2 ^ 53 \<and> (0::nat) < 7 \<and> length ?x * 7 < 2 ^ 50"
    by simp
  have h2: "(0::nat) < 32000 \<and> (32000::nat) < 2 ^ 53 \<and> (0::nat) < 16000
            \<and> length ?z * 16000 < 2 ^ 50"
    by simp
  obtain y where y: "resampleAudio ?x (of_nat 18) (of_nat 7) = Inr y"
    "int (length y) =
       (if of_nat (length ?x) * of_nat 7 / of_nat 18 + 1 / 2
             = (of_int (spec_length (length ?x) (of_nat 18) (of_nat 7)) :: rat)
           \<and> fdiv (of_nat (length ?x)) (fdiv (of_nat 18) (of_nat 7))
               < of_nat (length ?x) * of_nat 7 / of_nat 18
        then spec_length (length ?x) (of_nat 18) (of_nat 7) - 1
        else spec_length (length ?x) (of_nat 18) (of_nat 7))"
    using resample_length_nearest [of 18 7 ?x] h1 by blast
  have "int (length y) = 3"
    unfolding y(2) using t1 q1 s1 by (simp only: if_True simp_thms)
  then have 1: "\<exists>y. resampleAudio ?x 18 7 = Inr y \<and> int (length y) = 3"
    using y(1) by simp
  obtain z where z: "resampleAudio ?z (of_nat 32000) (of_nat 16000) = Inr z"
    "fdiv (of_nat 32000) (of_nat 16000) = of_nat 32000 / of_nat 16000 \<longrightarrow>
       int (length z) = spec_length (length ?z) (of_nat 32000) (of_nat 16000)"
    using resample_length_nearest [of 32000 16000 ?z] h2 by blast
  have "int (length z) = 2"
    using z(2) r2 s2 by (simp only:)
  then have 2: "\<exists>y. resampleAudio ?z 32000 16000 = Inr y \<and> int (length y) = 2"
    using z(1) by simp
  show ?thesis
    using 1 2 s1n s2n q1n r2n by blast
qed

section \<open>The resampler: array reads\<close>



section \<open>The resampler: bounds\<close>

text \<open>
  Claim C8. For a non-empty input of finite binary32 samples and positive integer rates
  (\<open>r_in\<close> below \<open>2 ^ 53\<close> and \<open>len x * r_out\<close> below \<open>2 ^ 50\<close>), \<^verbatim>\<open>resampleAudio\<close> returns,
  and every sample of the result is a number between the least and the greatest sample
  of the input.
\<close>

theorem resampleAudio_bounded:
  fixes a b :: nat
  assumes "0 < a" "a < 2 ^ 53" "0 < b" "x \<noteq> []" "length x * b < 2 ^ 50"
    and "\<forall>s\<in>set x. is_f32 s"
  shows "\<exists>y. resampleAudio x (of_nat a) (of_nat b) = Inr y \<and>
           (\<forall>s\<in>set y. s \<noteq> NaN
              \<and> Min (value_of ` set x) \<le> value_of s \<and> value_of s \<le> Max (value_of ` set x))"
proof -
  define lo where "lo = Min (value_of ` set x)"
  define hi where "hi = Max (value_of ` set x)"
  have fin: "finite (value_of ` set x)" "value_of ` set x \<noteq> {}"
    using assms(4) by simp_all
  have val: "\<exists>v. s = Val v \<and> f32 v = v \<and> lo \<le> v \<and> v \<le> hi" if "s \<in> set x" for s
  proof -
    have "is_f32 s"
      using that assms(6) by blast
    then obtain v where v: "s = Val v" "f32 v = v"
      by (cases s) auto
    have "value_of s \<in> value_of ` set x"
      using that by simp
    then have "lo \<le> value_of s" "value_of s \<le> hi"
      unfolding lo_def hi_def using fin by simp_all
    then show ?thesis
      using v by simp
  qed
  have "lo \<in> value_of ` set x" "hi \<in> value_of ` set x"
    unfolding lo_def hi_def using fin by (simp_all add: Min_in Max_in)
  then obtain sl sh where "sl \<in> set x" "value_of sl = lo" "sh \<in> set x" "value_of sh = hi"
    by auto
  then have flo: "f32 lo = lo" and fhi: "f32 hi = hi"
    using val by fastforce+
  have goal: "s \<noteq> NaN \<and> lo \<le> value_of s \<and> value_of s \<le> hi"
    if "\<exists>v. s = Val v \<and> lo \<le> v \<and> v \<le> hi" for s
    using that by auto
  show ?thesis
  proof (cases "a = b")
    case True
    have "\<forall>s\<in>set x. s \<noteq> NaN \<and> lo \<le> value_of s \<and> value_of s \<le> hi"
      using val by (intro ballI goal) blast
    then show ?thesis
      using True by (simp add: resampleAudio_def lo_def hi_def)
  next
    case False
    have n: "0 < length x"
      using assms(4) by simp
    obtain y where y: "resampleAudio x (of_nat a) (of_nat b) = Inr y"
      "int (length y) = js_round (fdiv (of_nat (length x)) (fdiv (of_nat a) (of_nat b)))"
      "\<forall>i<length y. y ! i = resample_at x (fdiv (of_nat a) (of_nat b)) i"
      using resampleAudio_result [OF assms(1,2,3) False assms(4,5)] by blast
    have "s \<noteq> NaN \<and> lo \<le> value_of s \<and> value_of s \<le> hi" if sy: "s \<in> set y" for s
    proof -
      obtain i where i: "i < length y" "s = y ! i"
        using sy by (auto simp: in_set_conv_nth)
      have "int i < js_round (fdiv (of_nat (length x)) (fdiv (of_nat a) (of_nat b)))"
        using i(1) y(2) by linarith
      then have idx: "0 \<le> \<lfloor>fmul (of_nat i) (fdiv (of_nat a) (of_nat b))\<rfloor>"
        "\<lfloor>fmul (of_nat i) (fdiv (of_nat a) (of_nat b))\<rfloor> < int (length x)"
        using index_bounds [OF assms(1,2,3) n assms(5)] by blast+
      have "\<forall>s\<in>set x. \<exists>v. s = Val v \<and> f32 v = v \<and> lo \<le> v \<and> v \<le> hi"
        using val by blast
      then have "\<exists>v. resample_at x (fdiv (of_nat a) (of_nat b)) i = Val v \<and> lo \<le> v \<and> v \<le> hi"
        using flo fhi idx by (rule resample_at_bounded)
      then show ?thesis
        using i y(3) by (intro goal) simp
    qed
    then show ?thesis
      using y(1) by (auto simp: lo_def hi_def)
  qed
qed

lemma f32_one: "f32 1 = 1"
  by code_simp

theorem resampleAudio_bounded_witness:
  "\<exists>y. resampleAudio [Val 0, Val 1] (of_nat 1) (of_nat 3) = Inr y \<and>
        list_all (\<lambda>s. s \<noteq> NaN \<and> 0 \<le> value_of s \<and> value_of s \<le> 1) y"
proof -
  have h: "(0::nat) < 1" "(1::nat) < 2 ^ 53" "(0::nat) < 3"
    "[Val 0, Val 1] \<noteq> []" "length [Val 0, Val 1] * 3 < 2 ^ 50"
    by simp_all
  have f: "\<forall>s\<in>set [Val 0, Val 1]. is_f32 s"
    by (simp add: f32_one)
  from resampleAudio_bounded [OF h f]
  show ?thesis
    by (auto simp: list_all_iff)
qed

section \<open>The audio loaders\<close>

text \<open>
  Claim C9. Once the audio is fetched and decoded, both loaders return a result that
  depends on channel 0 alone: the resampler's result on channel 0 when the native rate
  differs from the requested rate, and channel 0 unchanged when the rates are equal.
\<close>

theorem loaders_take_channel_0:
  "fetch url = Inr arrayBuffer \<and> decodeAudioData arrayBuffer = Inr audioBuffer
     \<and> channels audioBuffer = channel0 # others \<longrightarrow>
   read_audio fetch decodeAudioData url rate =
     (if sampleRate audioBuffer \<noteq> rate
      then resampleAudio channel0 (sampleRate audioBuffer) rate
      else Inr channel0)
   \<and> read_audio_from_blob decodeAudioData arrayBuffer rate =
     (if sampleRate audioBuffer \<noteq> rate
      then resampleAudio channel0 (sampleRate audioBuffer) rate
      else Inr channel0)"
  by (simp add: read_audio_def read_audio_from_blob_def getChannelData_def)

theorem loaders_take_channel_0_witness:
  "read_audio (\<lambda>u. Inr [82, 73, 70, 70])
      (\<lambda>b. Inr \<lparr>channels = [[Val 0, Val 1], [Val 1, Val 1]], sampleRate = 1\<rparr>) ''a.wav'' 3
     = Inr [Val 0, Val (11184811 / 33554432), Val (11184811 / 16777216), Val 1, Val 1, Val 1]
   \<and> read_audio_from_blob
      (\<lambda>b. Inr \<lparr>channels = [[Val 0, Val 1], [Val 1, Val 1]], sampleRate = 1\<rparr>) [82, 73, 70, 70] 1
     = Inr [Val 0, Val 1]"
proof -
  have r: "resampleAudio [Val 0, Val 1] 1 3
       = Inr [Val 0, Val (11184811 / 33554432), Val (11184811 / 16777216), Val 1, Val 1, Val 1]"
    by code_simp
  show ?thesis
    using r
      loaders_take_channel_0 [of "\<lambda>u. Inr [82, 73, 70, 70]" "''a.wav''" "[82, 73, 70, 70]"
        "\<lambda>b. Inr \<lparr>channels = [[Val 0, Val 1], [Val 1, Val 1]], sampleRate = 1\<rparr>"
        "\<lparr>channels = [[Val 0, Val 1], [Val 1, Val 1]], sampleRate = 1\<rparr>"
        "[Val 0, Val 1]" "[[Val 1, Val 1]]" 3]
      loaders_take_channel_0 [of "\<lambda>u. Inr [82, 73, 70, 70]" "''a.wav''" "[82, 73, 70, 70]"
        "\<lambda>b. Inr \<lparr>channels = [[Val 0, Val 1], [Val 1, Val 1]], sampleRate = 1\<rparr>"
        "\<lparr>channels = [[Val 0, Val 1], [Val 1, Val 1]], sampleRate = 1\<rparr>"
        "[Val 0, Val 1]" "[[Val 1, Val 1]]" 1]
    by simp
qed

section \<open>The transcription service\<close>

text \<open>
  Claim C2. In every state of the service in which no model is loaded, both transcribe
  methods fail with \<open>NotInitialized\<close> and start neither the loading of audio nor an
  inference. After \<^verbatim>\<open>dispose()\<close> the service is such a state: \<^verbatim>\<open>isReady()\<close> is false and
  both transcribe methods fail in that way.
\<close>

theorem transcribe_requires_loaded:
  "\<not> isReady s \<Longrightarrow>
     transcribeFromUrl fetch decodeAudioData url s = ([], Inl NotInitialized)
   \<and> transcribeFromBlob decodeAudioData blob s = ([], Inl NotInitialized)
   \<and> \<not> isReady (dispose s0)
   \<and> transcribeFromUrl fetch decodeAudioData url (dispose s0) = ([], Inl NotInitialized)
   \<and> transcribeFromBlob decodeAudioData blob (dispose s0) = ([], Inl NotInitialized)"
  by (simp add: isReady_def dispose_def transcribeFromUrl_def transcribeFromBlob_def)

theorem transcribe_requires_loaded_witness:
  "\<not> isReady (new_service :: asr_pipeline service)
   \<and> transcribeFromUrl (\<lambda>u. Inr [82, 73, 70, 70])
        (\<lambda>b. Inr \<lparr>channels = [[Val 0, Val 1]], sampleRate = 16000\<rparr>) ''a.wav'' new_service
       = ([], Inl NotInitialized)
   \<and> transcribeFromBlob
        (\<lambda>b. Inr \<lparr>channels = [[Val 0, Val 1]], sampleRate = 16000\<rparr>) [82, 73, 70, 70] new_service
       = ([], Inl NotInitialized)
   \<and> \<not> isReady (dispose \<lparr>transcriber = Some \<lparr>sampling_rate = 16000, infer = (\<lambda>a. Inr ''hello'')\<rparr>,
                           isLoading = False, loadingPromise = Some 0\<rparr>)"
  using transcribe_requires_loaded [of new_service "\<lambda>u. Inr [82, 73, 70, 70]"
      "\<lambda>b. Inr \<lparr>channels = [[Val 0, Val 1]], sampleRate = 16000\<rparr>" "''a.wav''"
      "[82, 73, 70, 70]"
      "\<lparr>transcriber = Some \<lparr>sampling_rate = 16000, infer = (\<lambda>a. Inr ''hello'')\<rparr>,
        isLoading = False, loadingPromise = Some 0\<rparr>"]
  by (simp add: isReady_def new_service_def)

text \<open>
  Runs of the service: calls of \<^verbatim>\<open>initialize\<close> that arrive while a load is pending, and
  the resumption of the waiting calls once the load has succeeded.
\<close>

lemma find_absent:
  "c \<notin> fst ` set xs \<Longrightarrow> find (\<lambda>(c', _). c' = c) xs = None"
  by (induction xs) auto

lemma find_present:
  "distinct (map fst ys) \<Longrightarrow> (c, v) \<in> set ys \<Longrightarrow> find (\<lambda>(c', _). c' = c) ys = Some (c, v)"
  by (induction ys) (auto simp: image_iff)

lemma find_fresh:
  assumes "c \<notin> fst ` set xs" "distinct (map fst ys)" "(c, v) \<in> set ys"
  shows "find (\<lambda>(c', _). c' = c) (xs @ ys) = Some (c, v)"
  using assms by (induction xs) (auto simp: find_present)

lemma find_filter_other:
  "c' \<noteq> c \<Longrightarrow>
   find (\<lambda>(d, _). d = c') (filter (\<lambda>(d, _). d \<noteq> c) xs) = find (\<lambda>(d, _). d = c') xs"
  by (induction xs) auto

lemma initialize_unloaded:
  assumes "transcriber (svc w) = None" "\<not> isLoading (svc w)"
  shows "initialize c modelName w =
    w\<lparr>svc := (svc w)\<lparr>isLoading := True, loadingPromise := Some (length (promises w))\<rparr>,
      promises := promises w @ [Pending],
      loads := loads w @ [(length (promises w), modelName)],
      suspended := suspended w @ [(c, AwaitOwn, Some (length (promises w)))]\<rparr>"
  using assms by (simp add: initialize_def loadModel_def Let_def)

lemma initialize_loading:
  assumes "transcriber (svc w) = None" "isLoading (svc w)"
  shows "initialize c modelName w =
    w\<lparr>suspended := suspended w @ [(c, AwaitExisting, loadingPromise (svc w))]\<rparr>"
  using assms by (simp add: initialize_def)

lemma run_append:
  "run w (evs @ evs') = (case run w evs of None \<Rightarrow> None | Some w' \<Rightarrow> run w' evs')"
  by (induction evs arbitrary: w) (auto split: option.splits)

lemma run_initialize_loading:
  assumes "transcriber (svc w) = None" "isLoading (svc w)"
  shows "run w (map (\<lambda>(c, n). Initialize c n) calls) =
    Some (w\<lparr>suspended := suspended w
               @ map (\<lambda>(c, n). (c, AwaitExisting, loadingPromise (svc w))) calls\<rparr>)"
  using assms
proof (induction calls arbitrary: w)
  case Nil
  then show ?case by simp
next
  case (Cons call calls)
  obtain c n where call: "call = (c, n)"
    by (cases call)
  let ?w = "w\<lparr>suspended := suspended w @ [(c, AwaitExisting, loadingPromise (svc w))]\<rparr>"
  have "run ?w (map (\<lambda>(c, n). Initialize c n) calls) =
    Some (?w\<lparr>suspended := suspended ?w
               @ map (\<lambda>(c, n). (c, AwaitExisting, loadingPromise (svc ?w))) calls\<rparr>)"
    using Cons.prems by (intro Cons.IH) simp_all
  then show ?case
    using Cons.prems by (simp add: call step_def initialize_loading)
qed

lemma run_resume_all:
  assumes "p < length (promises w)" "promises w ! p = Fulfilled"
    and "transcriber (svc w) = Some h"
    and "distinct order"
    and "\<forall>c\<in>set order. \<exists>site. find (\<lambda>(c', _). c' = c) (suspended w) = Some (c, site, Some p)"
  shows "\<exists>w'. run w (map Resume order) = Some w'
           \<and> loads w' = loads w \<and> promises w' = promises w
           \<and> transcriber (svc w') = Some h
           \<and> completed w' = completed w @ map (\<lambda>c. (c, Inr (), Some h)) order
           \<and> suspended w' = filter (\<lambda>(c, _). c \<notin> set order) (suspended w)"
  using assms
proof (induction order arbitrary: w)
  case Nil
  then show ?case by simp
next
  case (Cons c order)
  obtain site where site: "find (\<lambda>(c', _). c' = c) (suspended w) = Some (c, site, Some p)"
    using Cons.prems(5) by auto
  have aw: "awaited (promises w) (Some p) = Fulfilled"
    using Cons.prems(1,2) by (simp add: awaited_def)
  obtain w1 where w1: "initialize_resumed c w = Some w1"
    and k: "loads w1 = loads w" "promises w1 = promises w" "transcriber (svc w1) = Some h"
      "completed w1 = completed w @ [(c, Inr (), Some h)]"
      "suspended w1 = filter (\<lambda>(c', _). c' \<noteq> c) (suspended w)"
    using site aw Cons.prems(3)
    by (cases site) (simp_all add: initialize_resumed_def complete_def Let_def)
  have rest: "\<forall>c'\<in>set order. \<exists>site. find (\<lambda>(d, _). d = c') (suspended w1) = Some (c', site, Some p)"
  proof
    fix c' assume c': "c' \<in> set order"
    then have "c' \<noteq> c"
      using Cons.prems(4) by auto
    then show "\<exists>site. find (\<lambda>(d, _). d = c') (suspended w1) = Some (c', site, Some p)"
      using Cons.prems(5) c' by (simp add: k(5) find_filter_other)
  qed
  obtain w' where w': "run w1 (map Resume order) = Some w'"
    "loads w' = loads w1" "promises w' = promises w1" "transcriber (svc w') = Some h"
    "completed w' = completed w1 @ map (\<lambda>c. (c, Inr (), Some h)) order"
    "suspended w' = filter (\<lambda>(c, _). c \<notin> set order) (suspended w1)"
    using Cons.IH [of w1] Cons.prems(1,2,4) k rest by auto
  have "filter (\<lambda>(c, _). c \<notin> set order) (filter (\<lambda>(c', _). c' \<noteq> c) (suspended w))
        = filter (\<lambda>(c', _). c' \<notin> set (c # order)) (suspended w)"
    by (auto intro: filter_cong simp: case_prod_beta)
  then show ?case
    using w1 w' k by (simp add: step_def)
qed


text \<open>
  The runs in which the calls are all made before the load settles and resume after it:
  the run goes through, one load is started or none, and every call returns with the
  pipeline of that load.
\<close>

lemma run_canonical:
  assumes "transcriber (svc w) = None"
    and "isLoading (svc w) \<longrightarrow>
           loadingPromise (svc w) = Some p \<and> p < length (promises w) \<and> promises w ! p = Pending"
    and "\<not> isLoading (svc w) \<longrightarrow> p = length (promises w)"
    and "calls \<noteq> []" "distinct (map fst calls)"
    and "fst ` set calls \<inter> fst ` set (suspended w) = {}"
    and "distinct order" "set order = fst ` set calls"
  shows "\<exists>w'. run w (map (\<lambda>(c, modelName). Initialize c modelName) calls
                      @ Settle p (Inr h) # map Resume order) = Some w'
           \<and> loads w' = (if isLoading (svc w) then loads w
                          else loads w @ [(p, snd (hd calls))])
           \<and> transcriber (svc w') = Some h
           \<and> completed w' = completed w @ map (\<lambda>c. (c, Inr (), Some h)) order"
proof -
  define sites where "sites = (if isLoading (svc w) then map (\<lambda>(c, n). (c, AwaitExisting, Some p)) calls
     else (fst (hd calls), AwaitOwn, Some p) # map (\<lambda>(c, n). (c, AwaitExisting, Some p)) (tl calls))"
  define w1 where "w1 = (if isLoading (svc w) then w\<lparr>suspended := suspended w @ sites\<rparr>
     else w\<lparr>svc := (svc w)\<lparr>isLoading := True, loadingPromise := Some p\<rparr>,
            promises := promises w @ [Pending],
            loads := loads w @ [(p, snd (hd calls))],
            suspended := suspended w @ sites\<rparr>)"
  have r1: "run w (map (\<lambda>(c, modelName). Initialize c modelName) calls) = Some w1"
  proof (cases "isLoading (svc w)")
    case True
    then show ?thesis
      using run_initialize_loading [OF assms(1) True, of calls] assms(2)
      by (simp add: w1_def sites_def)
  next
    case False
    obtain c n rest where calls: "calls = (c, n) # rest"
      using assms(4) by (cases calls) auto
    let ?w = "initialize c n w"
    have i: "?w = w\<lparr>svc := (svc w)\<lparr>isLoading := True, loadingPromise := Some p\<rparr>,
        promises := promises w @ [Pending],
        loads := loads w @ [(p, n)],
        suspended := suspended w @ [(c, AwaitOwn, Some p)]\<rparr>"
      using initialize_unloaded [OF assms(1) False] assms(3) False by simp
    have "run ?w (map (\<lambda>(c, n). Initialize c n) rest) =
      Some (?w\<lparr>suspended := suspended ?w
                 @ map (\<lambda>(c, n). (c, AwaitExisting, loadingPromise (svc ?w))) rest\<rparr>)"
      using assms(1) by (intro run_initialize_loading) (simp_all add: i)
    then show ?thesis
      using False by (simp add: calls step_def w1_def sites_def i)
  qed
  have s1: "suspended w1 = suspended w @ sites" and p1: "p < length (promises w1)"
    "promises w1 ! p = Pending" and l1: "loads w1 = (if isLoading (svc w) then loads w
                          else loads w @ [(p, snd (hd calls))])"
    and c1: "completed w1 = completed w"
    using assms(2,3) by (auto simp: w1_def nth_append)
  define w2 where "w2 = loadModel_settled p (Inr h) w1"
  have r2: "step (Settle p (Inr h)) w1 = Some w2"
    using p1 by (simp add: step_def w2_def)
  have k2: "p < length (promises w2)" "promises w2 ! p = Fulfilled"
    "transcriber (svc w2) = Some h" "suspended w2 = suspended w @ sites"
    "loads w2 = loads w1" "completed w2 = completed w"
    using p1 s1 c1 by (simp_all add: w2_def loadModel_settled_def)
  have fs: "map fst sites = map fst calls"
    using assms(4) by (cases calls) (auto simp: sites_def case_prod_beta)
  have ins: "\<exists>site. (c, site, Some p) \<in> set sites" if "c \<in> fst ` set calls" for c
  proof -
    have "c \<in> set (map fst sites)"
      using that fs by simp
    then obtain e where e: "e \<in> set sites" "fst e = c"
      by auto
    then have "snd (snd e) = Some p"
      by (auto simp: sites_def split: if_splits)
    then show ?thesis
      using e by (cases e) auto
  qed
  have f2: "\<forall>c\<in>set order. \<exists>site. find (\<lambda>(c', _). c' = c) (suspended w2) = Some (c, site, Some p)"
  proof
    fix c assume "c \<in> set order"
    then have c: "c \<in> fst ` set calls"
      using assms(8) by simp
    then obtain site where "(c, site, Some p) \<in> set sites"
      using ins by blast
    moreover have "c \<notin> fst ` set (suspended w)"
      using c assms(6) by auto
    moreover have "distinct (map fst sites)"
      using fs assms(5) by simp
    ultimately have "find (\<lambda>(c', _). c' = c) (suspended w @ sites) = Some (c, site, Some p)"
      by (intro find_fresh)
    then show "\<exists>site. find (\<lambda>(c', _). c' = c) (suspended w2) = Some (c, site, Some p)"
      using k2(4) by auto
  qed
  obtain w' where w': "run w2 (map Resume order) = Some w'" "loads w' = loads w2"
    "transcriber (svc w') = Some h"
    "completed w' = completed w2 @ map (\<lambda>c. (c, Inr (), Some h)) order"
    using run_resume_all [OF k2(1,2,3) assms(7) f2] by blast
  have "run w (map (\<lambda>(c, modelName). Initialize c modelName) calls
                 @ Settle p (Inr h) # map Resume order) = Some w'"
    using r1 r2 w'(1) by (simp add: run_append)
  then show ?thesis
    using w' k2 l1 by auto
qed

text \<open>
  The invariant is kept by every event of a run around the load \<open>p\<close>. A step starts a load
  only from the service that is neither loaded nor loading, and that load is \<open>p\<close>; a call
  completes only once \<open>p\<close> has settled, with the outcome of \<open>p\<close>.
\<close>

lemma settled_state_not_Pending [simp]: "settled_state res \<noteq> Pending"
  by (cases res) simp_all

lemma find_in_set: "find P xs = Some x \<Longrightarrow> x \<in> set xs \<and> P x"
  by (induction xs) (auto split: if_splits)

lemma step_coherent:
  assumes "coherent p res w" "allowed p res ev" "step ev w = Some w1"
  shows "coherent p res w1"
    and "loads w1 = loads w @ (if transcriber (svc w) = None \<and> \<not> isLoading (svc w)
                               then map (\<lambda>(c, n). (p, n)) (take 1 (calls_of [ev])) else [])"
    and "\<exists>news. completed w1 = completed w @ news
           \<and> list_all (\<lambda>(c, r, t). r = load_outcome res \<and> t = load_handle res) news
           \<and> (\<not> settled p w1 \<longrightarrow> news = [])"
    and "settled p w \<longrightarrow> settled p w1"
    and "\<not> (transcriber (svc w1) = None \<and> \<not> isLoading (svc w1))"
    and "transcriber (svc w) = None \<and> \<not> isLoading (svc w) \<longrightarrow> (\<exists>c n. ev = Initialize c n)"
proof -
  have all: "coherent p res w1
    \<and> loads w1 = loads w @ (if transcriber (svc w) = None \<and> \<not> isLoading (svc w)
                               then map (\<lambda>(c, n). (p, n)) (take 1 (calls_of [ev])) else [])
    \<and> (\<exists>news. completed w1 = completed w @ news
           \<and> list_all (\<lambda>(c, r, t). r = load_outcome res \<and> t = load_handle res) news
           \<and> (\<not> settled p w1 \<longrightarrow> news = []))
    \<and> (settled p w \<longrightarrow> settled p w1)
    \<and> \<not> (transcriber (svc w1) = None \<and> \<not> isLoading (svc w1))
    \<and> (transcriber (svc w) = None \<and> \<not> isLoading (svc w) \<longrightarrow> (\<exists>c n. ev = Initialize c n))"
  proof (cases ev)
    case (Initialize c n)
    then have w1: "w1 = initialize c n w"
      using assms(3) by (simp add: step_def)
    show ?thesis
    proof (cases "settled p w")
      case True
      show ?thesis
      proof (cases "transcriber (svc w) = None")
        case None: True
        then have il: "isLoading (svc w)" "loadingPromise (svc w) = Some p"
          using assms(1) True by (auto simp: coherent_def split: if_splits)
        then have "w1 = w\<lparr>suspended := suspended w @ [(c, AwaitExisting, Some p)]\<rparr>"
          using None w1 by (simp add: initialize_def)
        then show ?thesis
          using assms(1) True Initialize il by (auto simp: coherent_def settled_def split: if_splits)
      next
        case False
        then have "w1 = complete c (Inr ()) w"
          using w1 by (simp add: initialize_def)
        moreover have "res \<noteq> Inl e" for e
          using assms(1) True False by (auto simp: coherent_def)
        then obtain h where "res = Inr h"
          by (cases res) auto
        ultimately show ?thesis
          using assms(1) True False Initialize
          by (auto simp: coherent_def settled_def complete_def split: if_splits)
      qed
    next
      case False
      then have none: "transcriber (svc w) = None"
        using assms(1) by (simp add: coherent_def)
      show ?thesis
      proof (cases "isLoading (svc w)")
        case True
        then have "loadingPromise (svc w) = Some p"
          using assms(1) False by (simp add: coherent_def)
        then have "w1 = w\<lparr>suspended := suspended w @ [(c, AwaitExisting, Some p)]\<rparr>"
          using none True w1 by (simp add: initialize_def)
        then show ?thesis
          using assms(1) False True Initialize by (auto simp: coherent_def settled_def split: if_splits)
      next
        case nl: False
        then have p: "p = length (promises w)"
          using assms(1) False by (simp add: coherent_def)
        have "w1 = w\<lparr>svc := (svc w)\<lparr>isLoading := True, loadingPromise := Some p\<rparr>,
            promises := promises w @ [Pending],
            loads := loads w @ [(p, n)],
            suspended := suspended w @ [(c, AwaitOwn, Some p)]\<rparr>"
          using none nl w1 p by (simp add: initialize_def loadModel_def Let_def)
        then show ?thesis
          using assms(1) False nl none p Initialize
          by (auto simp: coherent_def settled_def nth_append split: if_splits)
      qed
    qed
  next
    case (Settle q r)
    then have q: "q = p" "r = res"
      using assms(2) by simp_all
    have en: "p < length (promises w)" "promises w ! p = Pending"
      and w1: "w1 = loadModel_settled p res w"
      using assms(3) Settle q by (auto simp: step_def split: if_splits)
    have ns: "\<not> settled p w"
      using en by (simp add: settled_def)
    then have c: "transcriber (svc w) = None" "isLoading (svc w)" "loadingPromise (svc w) = Some p"
      using assms(1) en by (auto simp: coherent_def split: if_splits)
    show ?thesis
      using assms(1) ns c en w1 Settle
      by (cases res) (auto simp: coherent_def settled_def loadModel_settled_def split: if_splits)
  next
    case (Resume c)
    then have r: "initialize_resumed c w = Some w1"
      using assms(3) by (simp add: step_def)
    then obtain c' site po where f: "find (\<lambda>(c', _). c' = c) (suspended w) = Some (c', site, po)"
      by (auto simp: initialize_resumed_def split: option.splits)
    then have "(c', site, po) \<in> set (suspended w)"
      by (auto dest: find_in_set)
    then have po: "po = Some p"
      using assms(1) by (auto simp: coherent_def)
    have aw: "awaited (promises w) (Some p) \<noteq> Pending"
      using r f po by (auto simp: initialize_resumed_def Let_def split: pstate.splits)
    then have st: "settled p w"
      by (auto simp: awaited_def settled_def split: if_splits)
    then have pr: "promises w ! p = settled_state res" "p < length (promises w)"
      and tr: "transcriber (svc w) = load_handle res"
      using assms(1) by (auto simp: coherent_def settled_def split: if_splits)
    have sub: "\<forall>e\<in>set (filter (\<lambda>(c', _). c' \<noteq> c) (suspended w)). snd (snd e) = Some p"
      using assms(1) by (auto simp: coherent_def)
    show ?thesis
    proof (cases res)
      case (Inl e)
      then have "w1 = complete c (Inl e) (w\<lparr>suspended := filter (\<lambda>(c', _). c' \<noteq> c) (suspended w)\<rparr>)"
        using r f po pr by (simp add: initialize_resumed_def Let_def awaited_def)
      then show ?thesis
        using assms(1) st Inl tr sub Resume
        by (auto simp: coherent_def settled_def complete_def split: if_splits)
    next
      case (Inr h)
      then have "w1 = complete c (Inr ()) (w\<lparr>suspended := filter (\<lambda>(c', _). c' \<noteq> c) (suspended w)\<rparr>)
        \<or> w1 = complete c (Inr ()) (w\<lparr>suspended := filter (\<lambda>(c', _). c' \<noteq> c) (suspended w),
               svc := (svc w)\<lparr>isLoading := False\<rparr>\<rparr>)"
        using r f po pr by (cases site) (simp_all add: initialize_resumed_def Let_def awaited_def)
      then show ?thesis
        using assms(1) st Inr tr sub Resume
        by (auto simp: coherent_def settled_def complete_def split: if_splits)
    qed
  next
    case Dispose
    then show ?thesis
      using assms(2) by simp
  qed
  then show "coherent p res w1"
    and "loads w1 = loads w @ (if transcriber (svc w) = None \<and> \<not> isLoading (svc w)
                               then map (\<lambda>(c, n). (p, n)) (take 1 (calls_of [ev])) else [])"
    and "\<exists>news. completed w1 = completed w @ news
           \<and> list_all (\<lambda>(c, r, t). r = load_outcome res \<and> t = load_handle res) news
           \<and> (\<not> settled p w1 \<longrightarrow> news = [])"
    and "settled p w \<longrightarrow> settled p w1"
    and "\<not> (transcriber (svc w1) = None \<and> \<not> isLoading (svc w1))"
    and "transcriber (svc w) = None \<and> \<not> isLoading (svc w) \<longrightarrow> (\<exists>c n. ev = Initialize c n)"
    by blast+
qed


lemma run_coherent:
  assumes "coherent p res w" "list_all (allowed p res) evs" "run w evs = Some w'"
  shows "loads w' = loads w @ (if transcriber (svc w) = None \<and> \<not> isLoading (svc w)
                               then map (\<lambda>(c, n). (p, n)) (take 1 (calls_of evs)) else [])
    \<and> (\<exists>news. completed w' = completed w @ news
           \<and> list_all (\<lambda>(c, r, t). r = load_outcome res \<and> t = load_handle res) news
           \<and> (\<not> settled p w' \<longrightarrow> news = []))
    \<and> (settled p w \<longrightarrow> settled p w')"
  using assms
proof (induction evs arbitrary: w)
  case Nil
  then show ?case by simp
next
  case (Cons ev evs)
  obtain w1 where w1: "step ev w = Some w1" "run w1 evs = Some w'"
    using Cons.prems(3) by (auto split: option.splits)
  have al: "allowed p res ev" "list_all (allowed p res) evs"
    using Cons.prems(2) by simp_all
  note st = step_coherent [OF Cons.prems(1) al(1) w1(1)]
  note ih = Cons.IH [OF st(1) al(2) w1(2)]
  have l1: "loads w' = loads w1"
    using ih st(5) by auto
  have loads: "loads w' = loads w @ (if transcriber (svc w) = None \<and> \<not> isLoading (svc w)
                               then map (\<lambda>(c, n). (p, n)) (take 1 (calls_of (ev # evs))) else [])"
  proof (cases "transcriber (svc w) = None \<and> \<not> isLoading (svc w)")
    case True
    then obtain c n where "ev = Initialize c n"
      using st(6) by blast
    then show ?thesis
      using l1 st(2) True by simp
  next
    case False
    have "loads w1 = loads w @ []"
      using st(2) by (simp only: if_not_P [OF False])
    then show ?thesis
      using l1 by (simp only: if_not_P [OF False])
  qed
  obtain news0 where n0: "completed w1 = completed w @ news0"
    "list_all (\<lambda>(c, r, t). r = load_outcome res \<and> t = load_handle res) news0"
    "\<not> settled p w1 \<longrightarrow> news0 = []"
    using st(3) by blast
  obtain news1 where n1: "completed w' = completed w1 @ news1"
    "list_all (\<lambda>(c, r, t). r = load_outcome res \<and> t = load_handle res) news1"
    "\<not> settled p w' \<longrightarrow> news1 = []"
    using ih by blast
  have mono: "settled p w1 \<longrightarrow> settled p w'"
    using ih by blast
  have "completed w' = completed w @ (news0 @ news1)
        \<and> list_all (\<lambda>(c, r, t). r = load_outcome res \<and> t = load_handle res) (news0 @ news1)
        \<and> (\<not> settled p w' \<longrightarrow> news0 @ news1 = [])"
    using n0 n1 mono by auto
  then have "\<exists>news. completed w' = completed w @ news
           \<and> list_all (\<lambda>(c, r, t). r = load_outcome res \<and> t = load_handle res) news
           \<and> (\<not> settled p w' \<longrightarrow> news = [])"
    by blast
  then show ?case
    using loads mono st(4) by blast
qed

text \<open>
  Claim C3. Let no model be loaded, and the service be either not loading, \<open>p\<close> being the
  load its next call will start, or waiting for the pending load \<open>p\<close>.

  In every run from there that is made of calls of \<^verbatim>\<open>initialize\<close> with any model names,
  of resumptions of waiting calls and of the settling of \<open>p\<close> with \<open>res\<close>, in any order and
  number, the calls still waiting at the start waiting for \<open>p\<close>: the loads started are
  exactly one, \<open>p\<close>, with the model name of the first call, when the service was not
  loading and a call is made, and none when it was loading; every call that completes
  returns what \<open>p\<close> settled with and finds the pipeline of \<open>p\<close> in the service, so all
  callers see the same pipeline \<open>h\<close> when \<open>res\<close> is \<open>h\<close>; and no call completes while \<open>p\<close> is
  pending.

  And the calls do complete: when any number of calls with distinct fresh identities are
  made before the load settles, the load succeeds with pipeline \<open>h\<close> and the calls resume
  in any order, the run goes through and every call returns normally with \<open>h\<close> as the
  service's pipeline.
\<close>

theorem initialize_single_flight:
  assumes "transcriber (svc w) = None"
    and "isLoading (svc w) \<longrightarrow>
           loadingPromise (svc w) = Some p \<and> p < length (promises w) \<and> promises w ! p = Pending"
    and "\<not> isLoading (svc w) \<longrightarrow> p = length (promises w)"
  shows "((\<forall>e\<in>set (suspended w). snd (snd e) = Some p)
          \<and> list_all (allowed p res) evs \<and> run w evs = Some w' \<longrightarrow>
            loads w' = loads w @ (if isLoading (svc w) then []
                                  else map (\<lambda>(c, modelName). (p, modelName)) (take 1 (calls_of evs)))
            \<and> (\<exists>news. completed w' = completed w @ news
                  \<and> list_all (\<lambda>(c, r, t). r = load_outcome res \<and> t = load_handle res) news
                  \<and> (\<not> settled p w' \<longrightarrow> news = [])))
       \<and> (calls \<noteq> [] \<and> distinct (map fst calls)
          \<and> fst ` set calls \<inter> fst ` set (suspended w) = {}
          \<and> distinct order \<and> set order = fst ` set calls \<longrightarrow>
            (\<exists>w''. run w (map (\<lambda>(c, modelName). Initialize c modelName) calls
                             @ Settle p (Inr h) # map Resume order) = Some w''
               \<and> loads w'' = (if isLoading (svc w) then loads w
                               else loads w @ [(p, snd (hd calls))])
               \<and> transcriber (svc w'') = Some h
               \<and> completed w'' = completed w @ map (\<lambda>c. (c, Inr (), Some h)) order))"
proof (intro conjI impI)
  assume a: "(\<forall>e\<in>set (suspended w). snd (snd e) = Some p)
          \<and> list_all (allowed p res) evs \<and> run w evs = Some w'"
  have ns: "\<not> settled p w"
    using assms(2,3) by (cases "isLoading (svc w)") (simp_all add: settled_def)
  have co: "coherent p res w"
    using assms a ns by (simp add: coherent_def)
  have r: "loads w' = loads w @ (if transcriber (svc w) = None \<and> \<not> isLoading (svc w)
                               then map (\<lambda>(c, n). (p, n)) (take 1 (calls_of evs)) else [])
    \<and> (\<exists>news. completed w' = completed w @ news
           \<and> list_all (\<lambda>(c, r, t). r = load_outcome res \<and> t = load_handle res) news
           \<and> (\<not> settled p w' \<longrightarrow> news = []))"
    using run_coherent [OF co, of evs w'] a by blast
  show "loads w' = loads w @ (if isLoading (svc w) then []
                                  else map (\<lambda>(c, modelName). (p, modelName)) (take 1 (calls_of evs)))"
    using r assms(1) by simp
  show "\<exists>news. completed w' = completed w @ news
                  \<and> list_all (\<lambda>(c, r, t). r = load_outcome res \<and> t = load_handle res) news
                  \<and> (\<not> settled p w' \<longrightarrow> news = [])"
    using r by blast
next
  assume b: "calls \<noteq> [] \<and> distinct (map fst calls)
          \<and> fst ` set calls \<inter> fst ` set (suspended w) = {}
          \<and> distinct order \<and> set order = fst ` set calls"
  show "\<exists>w''. run w (map (\<lambda>(c, modelName). Initialize c modelName) calls
                             @ Settle p (Inr h) # map Resume order) = Some w''
               \<and> loads w'' = (if isLoading (svc w) then loads w
                               else loads w @ [(p, snd (hd calls))])
               \<and> transcriber (svc w'') = Some h
               \<and> completed w'' = completed w @ map (\<lambda>c. (c, Inr (), Some h)) order"
    using run_canonical [OF assms, of calls order h] b by blast
qed

theorem initialize_single_flight_witness:
  "(\<exists>w'. run (new_world :: nat world)
           ([Initialize 0 ''tiny'', Initialize 1 ''base'', Initialize 2 ''tiny'']
            @ Settle 0 (Inr 7) # [Resume 2, Resume 0, Resume 1]) = Some w'
       \<and> loads w' = [(0, ''tiny'')]
       \<and> transcriber (svc w') = Some 7
       \<and> completed w' = [(2, Inr (), Some 7), (0, Inr (), Some 7), (1, Inr (), Some 7)])
   \<and> run (new_world :: nat world)
        [Initialize 0 ''tiny'', Initialize 1 ''base'', Settle 0 (Inr 7), Resume 1,
         Initialize 2 ''tiny'', Resume 0]
      = Some \<lparr>svc = \<lparr>transcriber = Some 7, isLoading = False, loadingPromise = Some 0\<rparr>,
              promises = [Fulfilled], loads = [(0, ''tiny'')], suspended = [],
              completed = [(1, Inr (), Some 7), (2, Inr (), Some 7), (0, Inr (), Some 7)]\<rparr>
   \<and> loads \<lparr>svc = \<lparr>transcriber = Some (7::nat), isLoading = False, loadingPromise = Some 0\<rparr>,
              promises = [Fulfilled], loads = [(0, ''tiny'')], suspended = [],
              completed = [(1, Inr (), Some 7), (2, Inr (), Some 7), (0, Inr (), Some 7)]\<rparr>
      = loads (new_world :: nat world) @ [(0, ''tiny'')]"
proof -
  let ?W = "\<lparr>svc = \<lparr>transcriber = Some (7::nat), isLoading = False, loadingPromise = Some 0\<rparr>,
              promises = [Fulfilled], loads = [(0, ''tiny'')], suspended = [],
              completed = [(1, Inr (), Some 7), (2, Inr (), Some 7), (0, Inr (), Some 7)]\<rparr>"
  let ?evs = "[Initialize 0 ''tiny'', Initialize 1 ''base'', Settle 0 (Inr 7), Resume 1,
         Initialize 2 ''tiny'', Resume 0] :: nat event list"
  have r: "run (new_world :: nat world) ?evs = Some ?W"
    by code_simp
  have h: "transcriber (svc (new_world :: nat world)) = None"
    "isLoading (svc (new_world :: nat world)) \<longrightarrow>
       loadingPromise (svc (new_world :: nat world)) = Some 0
       \<and> 0 < length (promises (new_world :: nat world))
       \<and> promises (new_world :: nat world) ! 0 = Pending"
    "\<not> isLoading (svc (new_world :: nat world)) \<longrightarrow> 0 = length (promises (new_world :: nat world))"
    by (simp_all add: new_world_def new_service_def)
  have a: "(\<forall>e\<in>set (suspended (new_world :: nat world)). snd (snd e) = Some 0)
           \<and> list_all (allowed 0 (Inr 7)) ?evs"
    by (simp add: new_world_def)
  have b: "[(0, ''tiny''), (1, ''base''), (2, ''tiny'')] \<noteq> []
      \<and> distinct (map fst [(0::nat, ''tiny''), (1, ''base''), (2, ''tiny'')])
      \<and> fst ` set [(0::nat, ''tiny''), (1, ''base''), (2, ''tiny'')]
          \<inter> fst ` set (suspended (new_world :: nat world)) = {}
      \<and> distinct [2, 0, 1::nat]
      \<and> set [2, 0, 1::nat] = fst ` set [(0::nat, ''tiny''), (1, ''base''), (2, ''tiny'')]"
    by (auto simp: new_world_def)
  note t = initialize_single_flight [OF h, of "Inr 7" ?evs ?W
      "[(0, ''tiny''), (1, ''base''), (2, ''tiny'')]" "[2, 0, 1]" 7]
  have l: "loads ?W = loads (new_world :: nat world) @ [(0, ''tiny'')]"
    using t a r by (simp add: new_world_def new_service_def)
  have c: "\<exists>w'. run (new_world :: nat world)
           ([Initialize 0 ''tiny'', Initialize 1 ''base'', Initialize 2 ''tiny'']
            @ Settle 0 (Inr 7) # [Resume 2, Resume 0, Resume 1]) = Some w'
       \<and> loads w' = [(0, ''tiny'')]
       \<and> transcriber (svc w') = Some 7
       \<and> completed w' = [(2, Inr (), Some 7), (0, Inr (), Some 7), (1, Inr (), Some 7)]"
    using t b by (simp add: new_world_def new_service_def)
  show ?thesis
    using r l c by blast
qed


text \<open>
  Claim C4. When a model is loaded, a call of \<^verbatim>\<open>initialize\<close> with any model name returns
  at once and successfully: it starts no load, creates no promise, suspends nothing and
  leaves the service, and so the stored pipeline, as it was.
\<close>

theorem initialize_idempotent_when_loaded:
  "transcriber (svc w) = Some h \<Longrightarrow>
   step (Initialize c modelName) w
     = Some (w\<lparr>completed := completed w @ [(c, Inr (), Some h)]\<rparr>)"
  by (simp add: step_def initialize_def complete_def)

theorem initialize_idempotent_when_loaded_witness:
  "run (new_world :: nat world) [Initialize 0 ''tiny'', Settle 0 (Inr 7), Resume 0]
     = Some \<lparr>svc = \<lparr>transcriber = Some 7, isLoading = False, loadingPromise = Some 0\<rparr>,
             promises = [Fulfilled], loads = [(0, ''tiny'')], suspended = [],
             completed = [(0, Inr (), Some 7)]\<rparr>
   \<and> step (Initialize 1 ''base'')
        \<lparr>svc = \<lparr>transcriber = Some (7::nat), isLoading = False, loadingPromise = Some 0\<rparr>,
         promises = [Fulfilled], loads = [(0, ''tiny'')], suspended = [],
         completed = [(0, Inr (), Some 7)]\<rparr>
     = Some \<lparr>svc = \<lparr>transcriber = Some 7, isLoading = False, loadingPromise = Some 0\<rparr>,
             promises = [Fulfilled], loads = [(0, ''tiny'')], suspended = [],
             completed = [(0, Inr (), Some 7), (1, Inr (), Some 7)]\<rparr>"
proof -
  have r: "run (new_world :: nat world) [Initialize 0 ''tiny'', Settle 0 (Inr 7), Resume 0]
     = Some \<lparr>svc = \<lparr>transcriber = Some 7, isLoading = False, loadingPromise = Some 0\<rparr>,
             promises = [Fulfilled], loads = [(0, ''tiny'')], suspended = [],
             completed = [(0, Inr (), Some 7)]\<rparr>"
    by code_simp
  show ?thesis
    using r initialize_idempotent_when_loaded [of
        "\<lparr>svc = \<lparr>transcriber = Some (7::nat), isLoading = False, loadingPromise = Some 0\<rparr>,
          promises = [Fulfilled], loads = [(0, ''tiny'')], suspended = [],
          completed = [(0, Inr (), Some 7)]\<rparr>" 7 1 "''base''"]
    by simp
qed

text \<open>
  Claim C1 (what the code does). A load that fails leaves \<open>isLoading\<close> true and the rejected
  promise in \<open>loadingPromise\<close>; a later call of \<^verbatim>\<open>initialize\<close> starts no load and fails with
  the error of the first one.
\<close>

theorem failed_load_is_never_retried:
  "run (new_world :: nat world)
     [Initialize 0 ''tiny'', Settle 0 (Inl (LoadFailure ''offline'')), Resume 0,
      Initialize 1 ''tiny'', Resume 1]
   = Some \<lparr>svc = \<lparr>transcriber = None, isLoading = True, loadingPromise = Some 0\<rparr>,
           promises = [Rejected (LoadFailure ''offline'')],
           loads = [(0, ''tiny'')],
           suspended = [],
           completed = [(0, Inl (LoadFailure ''offline''), None),
                        (1, Inl (LoadFailure ''offline''), None)]\<rparr>"
  by code_simp

end
